theory Spec2Isabelle
  imports Complex_Main "HOL-Library.Log_Nat" "HOL-Library.Word"
begin

section \<open>Image algorithms: nearest-index resampling and Gaussian blur\<close>

text \<open>
  A shallow embedding of \<^verbatim>\<open>libimages/algorithms/downsample.cpp\<close> and
  \<^verbatim>\<open>libimages/algorithms/blur.cpp\<close>. C++ \<^verbatim>\<open>int\<close> values are HOL integers;
  where a theorem depends on the 32-bit range of \<^verbatim>\<open>int\<close> the range is a hypothesis
  of that theorem. Every \<^verbatim>\<open>rassert\<close>, every checked element access and every
  conversion whose behaviour the language leaves undefined is a branch that returns
  an error value.
\<close>

subsection \<open>Outcomes\<close>

text \<open>
  \<open>Rassert tag\<close> is the abort of \<^verbatim>\<open>rassert(cond, tag)\<close> with its numeric tag,
  \<open>OutOfBounds\<close> an element access outside a container, and \<open>UndefinedBehaviour\<close> an
  operation the C++ standard leaves undefined (an out-of-range floating to integer
  conversion, a signed overflow).
\<close>

datatype error = Rassert int | OutOfBounds | UndefinedBehaviour

definition bind_err :: "error + 'a \<Rightarrow> ('a \<Rightarrow> error + 'b) \<Rightarrow> error + 'b" where
  "bind_err m f = (case m of Inl e \<Rightarrow> Inl e | Inr v \<Rightarrow> f v)"

text \<open>
  A counting loop \<^verbatim>\<open>for (int i = lo; i <= hi; ++i) body\<close> runs the body over the
  list \<open>[lo..hi]\<close>, threading the loop state and stopping at the first error.
\<close>

fun for_loop :: "int list \<Rightarrow> (int \<Rightarrow> 's \<Rightarrow> error + 's) \<Rightarrow> 's \<Rightarrow> error + 's" where
  "for_loop [] body s = Inr s"
| "for_loop (i # js) body s = bind_err (body i s) (for_loop js body)"

definition clampi :: "int \<Rightarrow> int \<Rightarrow> int \<Rightarrow> int" where
  "clampi v lo hi = max lo (min hi v)"

subsection \<open>IEEE 754 rounding\<close>

text \<open>
  Finite floating-point values are modelled by the rationals they denote. \<open>fl p emin\<close>
  rounds a rational to the nearest value with a \<open>p\<close>-bit significand and minimal
  exponent \<open>emin\<close>, ties to even (the default rounding mode): \<open>flog2 x\<close> is the
  binary exponent \<open>\<lfloor>log\<^sub>2 x\<rfloor>\<close> of a positive rational, and the spacing of the
  representable values around \<open>x\<close> is \<open>2 powi (e - p + 1)\<close>. \<open>fl 53 (-1022)\<close> is
  binary64 rounding (\<^verbatim>\<open>double\<close>), \<open>fl 24 (-126)\<close> is binary32 (\<^verbatim>\<open>float\<close>).
  Overflow is handled by the callers: the \<^verbatim>\<open>double\<close> computation below stays far
  below the largest finite value for all 32-bit arguments.
\<close>

definition flog2 :: "rat \<Rightarrow> int" where
  "flog2 x = (case quotient_of x of (a, b) \<Rightarrow>
     (let e0 = bitlen a - bitlen b in if 2 powi e0 \<le> x then e0 else e0 - 1))"

definition rne :: "rat \<Rightarrow> int" where
  "rne y = (let f = \<lfloor>y\<rfloor>; d = y - of_int f in
     if d < 1/2 then f else if 1/2 < d then f + 1 else if even f then f else f + 1)"

definition fl :: "nat \<Rightarrow> int \<Rightarrow> rat \<Rightarrow> rat" where
  "fl p emin x = (if x = 0 then 0 else
     (let e = max (flog2 \<bar>x\<bar>) emin; u = 2 powi (e - int p + 1) in of_int (rne (x / u)) * u))"

definition fl64 :: "rat \<Rightarrow> rat" where
  "fl64 = fl 53 (- 1022)"

definition d_of_int :: "int \<Rightarrow> rat" where
  "d_of_int k = fl64 (of_int k)"

definition d_mul :: "rat \<Rightarrow> rat \<Rightarrow> rat" where
  "d_mul a b = fl64 (a * b)"

definition d_div :: "rat \<Rightarrow> rat \<Rightarrow> rat" where
  "d_div a b = fl64 (a / b)"

text \<open>\<^verbatim>\<open>std::lround\<close>: round to the nearest integer, halfway cases away from zero.\<close>

definition lround :: "rat \<Rightarrow> int" where
  "lround x = (if 0 \<le> x then \<lfloor>x + 1/2\<rfloor> else - \<lfloor>- x + 1/2\<rfloor>)"

subsection \<open>downsample.cpp\<close>

text \<open>
  \<^verbatim>\<open>map_index_round(i, n, m)\<close>: the product and the quotient are binary64 operations
  on the converted arguments. Both callers pass \<open>n \<ge> 2\<close>, so the divisor is not zero.
\<close>

definition map_index_round :: "int \<Rightarrow> int \<Rightarrow> int \<Rightarrow> int" where
  "map_index_round i n m =
     (let pos = d_div (d_mul (d_of_int i) (d_of_int (m - 1))) (d_of_int (n - 1));
          idx = lround pos
      in clampi idx 0 (m - 1))"

definition safe_mid_index :: "int \<Rightarrow> int" where
  "safe_mid_index m = (if m \<le> 0 then 0 else m div 2)"

text \<open>
  \<^verbatim>\<open>downsample(const std::vector<Color<T>>&, int n)\<close>. The colours are copied
  as opaque values; \<open>colors[idx]\<close> is a checked read. The length of the vector is
  taken to fit in \<^verbatim>\<open>int\<close>, as the source's \<^verbatim>\<open>static_cast<int>(colors.size())\<close>
  does; \<open>m div 2\<close> is C++ \<^verbatim>\<open>m / 2\<close> for the positive \<open>m\<close> it is applied to.
\<close>

definition vec_at :: "'a list \<Rightarrow> int \<Rightarrow> error + 'a" where
  "vec_at xs i = (if 0 \<le> i \<and> i < int (length xs) then Inr (xs ! nat i) else Inl OutOfBounds)"

definition downsample_colors :: "'c list \<Rightarrow> int \<Rightarrow> error + 'c list" where
  "downsample_colors colors n =
     (if n \<le> 0 then Inr [] else
      if colors = [] then Inr [] else
      let m = int (length colors) in
      if n \<ge> m then Inr colors else
      if n = 1 then bind_err (vec_at colors (m div 2)) (\<lambda>c. Inr [c]) else
      for_loop [0..n - 1] (\<lambda>i out.
        bind_err (vec_at colors (map_index_round i n m)) (\<lambda>c. Inr (out @ [c]))) [])"

text \<open>
  Modelled from the spec: the class \<^verbatim>\<open>Image<T>\<close> of \<^verbatim>\<open>libimages/image.h\<close> is not
  part of the sources. The spec describes it as a rectangular raster with width, height
  and channel count, a constructor taking (width, height, channels) and element read and
  write by (row, column[, channel]). An image is a record of the three extents and the
  element store, a function of (row, column, channel).
\<close>

record 'a Image =
  width :: int
  height :: int
  channels :: int
  pix :: "int \<times> int \<times> int \<Rightarrow> 'a"

text \<open>
  Modelled from the spec: the constructor \<^verbatim>\<open>Image<T>(w, h, ch)\<close>; \<open>z\<close> is the content
  of an element that has not been written yet.
\<close>

definition Image_new :: "int \<Rightarrow> int \<Rightarrow> int \<Rightarrow> 'a \<Rightarrow> 'a Image" where
  "Image_new w h ch z = \<lparr>width = w, height = h, channels = ch, pix = (\<lambda>_. z)\<rparr>"

definition in_image :: "'a Image \<Rightarrow> int \<Rightarrow> int \<Rightarrow> int \<Rightarrow> bool" where
  "in_image img y x c \<longleftrightarrow>
     0 \<le> y \<and> y < height img \<and> 0 \<le> x \<and> x < width img \<and> 0 \<le> c \<and> c < channels img"

text \<open>
  Modelled from the spec: the element accessors \<^verbatim>\<open>image(row, col, channel)\<close> for
  reading and for writing, with the index checked against the extents; the two-argument
  form \<^verbatim>\<open>image(row, col)\<close> of a one-channel image is channel \<open>0\<close>.
\<close>

definition img_at :: "'a Image \<Rightarrow> int \<Rightarrow> int \<Rightarrow> int \<Rightarrow> error + 'a" where
  "img_at img y x c = (if in_image img y x c then Inr (pix img (y, x, c)) else Inl OutOfBounds)"

definition img_set :: "'a Image \<Rightarrow> int \<Rightarrow> int \<Rightarrow> int \<Rightarrow> 'a \<Rightarrow> error + 'a Image" where
  "img_set img y x c v =
     (if in_image img y x c then Inr (img\<lparr>pix := (pix img)((y, x, c) := v)\<rparr>) else Inl OutOfBounds)"

text \<open>The body of the inner loop of \<^verbatim>\<open>downsample(const Image<T>&, int w, int h)\<close>.\<close>

definition copy_pixel :: "'a Image \<Rightarrow> int \<Rightarrow> int \<Rightarrow> int \<Rightarrow> int \<Rightarrow> int \<Rightarrow> 'a Image \<Rightarrow> error + 'a Image" where
  "copy_pixel src ch sy sx y x out =
     (if ch = 1 then
        bind_err (img_at src sy sx 0) (\<lambda>v. img_set out y x 0 v)
      else
        bind_err (img_at src sy sx 0) (\<lambda>v0. bind_err (img_set out y x 0 v0) (\<lambda>out.
        bind_err (img_at src sy sx 1) (\<lambda>v1. bind_err (img_set out y x 1 v1) (\<lambda>out.
        bind_err (img_at src sy sx 2) (\<lambda>v2. img_set out y x 2 v2))))))"

definition downsample_image :: "'a \<Rightarrow> 'a Image \<Rightarrow> int \<Rightarrow> int \<Rightarrow> error + 'a Image" where
  "downsample_image z src w h =
     (if \<not> (w > 0 \<and> h > 0) then Inl (Rassert 781234981) else
      let srcW = width src; srcH = height src; ch = channels src in
      if \<not> (srcW > 0 \<and> srcH > 0) then Inl (Rassert 781234982) else
      if \<not> (ch = 1 \<or> ch = 3) then Inl (Rassert 781234983) else
      let out = Image_new w h ch z;
          sx_center = safe_mid_index srcW;
          sy_center = safe_mid_index srcH
      in for_loop [0..h - 1] (\<lambda>y out.
           let sy = (if h = 1 then sy_center else map_index_round y h srcH) in
           for_loop [0..w - 1] (\<lambda>x out.
             let sx = (if w = 1 then sx_center else map_index_round x w srcW) in
             copy_pixel src ch sy sx y x out) out) out)"

subsection \<open>The specification's index formula\<close>



subsection \<open>Binary32 values\<close>

text \<open>
  A \<^verbatim>\<open>float\<close> is a finite value (the rational it denotes), an infinity or a NaN. The
  two zeros are identified: the code never divides by a zero and never inspects the
  sign of one. \<open>f_round\<close> rounds an exact result to binary32, overflowing to an
  infinity beyond the largest finite value.
\<close>

datatype float32 = Fin rat | PInf | NInf | NaN

definition flt_max :: rat where
  "flt_max = (2 ^ 24 - 1) * 2 ^ 104"

definition f_round :: "rat \<Rightarrow> float32" where
  "f_round x = (let y = fl 24 (- 126) x in
     if flt_max < y then PInf else if y < - flt_max then NInf else Fin y)"

text \<open>Comparisons are false whenever an operand is NaN.\<close>

fun f_lt :: "float32 \<Rightarrow> float32 \<Rightarrow> bool" where
  "f_lt NaN _ = False"
| "f_lt _ NaN = False"
| "f_lt (Fin a) (Fin b) = (a < b)"
| "f_lt _ NInf = False"
| "f_lt NInf _ = True"
| "f_lt PInf _ = False"
| "f_lt (Fin a) PInf = True"

definition f_gt :: "float32 \<Rightarrow> float32 \<Rightarrow> bool" where
  "f_gt a b = f_lt b a"

fun f_le :: "float32 \<Rightarrow> float32 \<Rightarrow> bool" where
  "f_le NaN _ = False"
| "f_le _ NaN = False"
| "f_le (Fin a) (Fin b) = (a \<le> b)"
| "f_le NInf _ = True"
| "f_le _ PInf = True"
| "f_le _ _ = False"

text \<open>\<^verbatim>\<open>std::max(a, b)\<close> is \<^verbatim>\<open>(a < b) ? b : a\<close>; \<^verbatim>\<open>std::clamp(v, lo, hi)\<close> is
  \<^verbatim>\<open>(v < lo) ? lo : (hi < v) ? hi : v\<close>.\<close>

definition f_max :: "float32 \<Rightarrow> float32 \<Rightarrow> float32" where
  "f_max a b = (if f_lt a b then b else a)"

definition f_clamp :: "float32 \<Rightarrow> float32 \<Rightarrow> float32 \<Rightarrow> float32" where
  "f_clamp v lo hi = (if f_lt v lo then lo else if f_lt hi v then hi else v)"

fun f_neg :: "float32 \<Rightarrow> float32" where
  "f_neg (Fin a) = Fin (- a)"
| "f_neg PInf = NInf"
| "f_neg NInf = PInf"
| "f_neg NaN = NaN"

fun f_add :: "float32 \<Rightarrow> float32 \<Rightarrow> float32" where
  "f_add NaN _ = NaN"
| "f_add _ NaN = NaN"
| "f_add (Fin a) (Fin b) = f_round (a + b)"
| "f_add PInf NInf = NaN"
| "f_add NInf PInf = NaN"
| "f_add PInf _ = PInf"
| "f_add NInf _ = NInf"
| "f_add (Fin a) b = b"

fun f_mul :: "float32 \<Rightarrow> float32 \<Rightarrow> float32" where
  "f_mul NaN _ = NaN"
| "f_mul _ NaN = NaN"
| "f_mul (Fin a) (Fin b) = f_round (a * b)"
| "f_mul (Fin a) b = (if a = 0 then NaN else if 0 < a then b else f_neg b)"
| "f_mul a (Fin b) = (if b = 0 then NaN else if 0 < b then a else f_neg a)"
| "f_mul PInf b = b"
| "f_mul NInf b = f_neg b"

fun f_div :: "float32 \<Rightarrow> float32 \<Rightarrow> float32" where
  "f_div NaN _ = NaN"
| "f_div _ NaN = NaN"
| "f_div (Fin a) (Fin b) =
     (if b = 0 then (if a = 0 then NaN else if 0 < a then PInf else NInf) else f_round (a / b))"
| "f_div (Fin a) b = Fin 0"
| "f_div a (Fin b) = (if 0 \<le> b then a else f_neg a)"
| "f_div a b = NaN"

definition f_of_int :: "int \<Rightarrow> float32" where
  "f_of_int k = f_round (of_int k)"

fun f_ceil :: "float32 \<Rightarrow> float32" where
  "f_ceil (Fin a) = Fin (of_int \<lceil>a\<rceil>)"
| "f_ceil v = v"

text \<open>
  \<^verbatim>\<open>static_cast<int>(float)\<close> truncates towards zero; the behaviour is undefined when
  the truncated value is not representable in \<^verbatim>\<open>int\<close>.
\<close>

fun f_to_int :: "float32 \<Rightarrow> error + int" where
  "f_to_int (Fin a) =
     (let t = (if 0 \<le> a then \<lfloor>a\<rfloor> else \<lceil>a\<rceil>) in
      if - 2147483648 \<le> t \<and> t \<le> 2147483647 then Inr t else Inl UndefinedBehaviour)"
| "f_to_int v = Inl UndefinedBehaviour"

text \<open>The literal \<^verbatim>\<open>0.001f\<close>.\<close>

definition f_0001 :: float32 where
  "f_0001 = f_round (1 / 1000)"

subsection \<open>blur.cpp: the kernel\<close>

text \<open>
  \<^verbatim>\<open>struct Kernel1D { std::vector<float> w; int r = 0; }\<close>; the fields are named
  \<open>k_w\<close> and \<open>k_r\<close> after the source's \<^verbatim>\<open>k.w\<close> and \<^verbatim>\<open>k.r\<close>.
\<close>

record Kernel1D =
  k_w :: "float32 list"
  k_r :: int

definition vec_set :: "'a list \<Rightarrow> int \<Rightarrow> 'a \<Rightarrow> error + 'a list" where
  "vec_set xs i v = (if 0 \<le> i \<and> i < int (length xs) then Inr (xs[nat i := v]) else Inl OutOfBounds)"

text \<open>
  One iteration of the loop of \<^verbatim>\<open>makeGaussianKernel\<close>. The product \<^verbatim>\<open>i * i\<close> is
  an \<^verbatim>\<open>int\<close> product, undefined when it overflows. \<^verbatim>\<open>std::exp\<close> on \<^verbatim>\<open>float\<close> is
  the parameter \<open>fexp\<close>: its rounding is a property of the platform's library.
\<close>

definition kernel_tap :: "(float32 \<Rightarrow> float32) \<Rightarrow> float32 \<Rightarrow> int \<Rightarrow> int \<Rightarrow>
    float32 list \<times> float32 \<Rightarrow> error + float32 list \<times> float32" where
  "kernel_tap fexp inv2s2 R i st =
     (case st of (ws, acc) \<Rightarrow>
        if 2147483647 < i * i then Inl UndefinedBehaviour else
        let v = fexp (f_mul (f_neg (f_of_int (i * i))) inv2s2) in
        bind_err (vec_set ws (i + R) v) (\<lambda>ws. Inr (ws, f_add acc v)))"

definition makeGaussianKernel :: "(float32 \<Rightarrow> float32) \<Rightarrow> float32 \<Rightarrow> error + Kernel1D" where
  "makeGaussianKernel fexp sigma =
     (if \<not> f_gt sigma (Fin 0) then Inr \<lparr>k_w = [], k_r = 0\<rparr> else
      let s = f_max f_0001 sigma in
      bind_err (f_to_int (f_ceil (f_mul (Fin 3) s))) (\<lambda>c.
      let R = max 0 c in
      if 2147483647 < 2 * R + 1 then Inl UndefinedBehaviour else
      let ws = replicate (nat (2 * R + 1)) (Fin 0);
          inv2s2 = f_div (Fin 1) (f_mul (f_mul (Fin 2) s) s)
      in bind_err (for_loop [- R..R] (kernel_tap fexp inv2s2 R) (ws, Fin 0)) (\<lambda>(ws, acc).
         Inr \<lparr>k_w = (if f_gt acc (Fin 0) then map (\<lambda>v. f_div v acc) ws else ws), k_r = R\<rparr>)))"

subsection \<open>blur.cpp: conversions\<close>

text \<open>
  \<^verbatim>\<open>to_f<T>\<close> and \<^verbatim>\<open>from_f<T>\<close> for the two instantiated element types. For
  \<^verbatim>\<open>std::uint8_t\<close> the value is clamped to [0, 255], rounded by \<^verbatim>\<open>lround\<close> and
  converted; \<^verbatim>\<open>lround\<close> of a NaN is an unspecified value, the parameter
  \<open>nan_result\<close>.
\<close>

record 'a elem_ops =
  to_f :: "'a \<Rightarrow> float32"
  from_f :: "float32 \<Rightarrow> 'a"


definition uint8_ops :: "8 word \<Rightarrow> 8 word elem_ops" where
  "uint8_ops nan_result =
     \<lparr>to_f = (\<lambda>v. Fin (of_nat (unat v))),
      from_f = (\<lambda>v. case f_clamp v (Fin 0) (Fin 255) of
                       Fin q \<Rightarrow> word_of_int (lround q)
                     | _ \<Rightarrow> nan_result)\<rparr>"

subsection \<open>blur.cpp: images\<close>

text \<open>The lambda \<^verbatim>\<open>idx(x, y, c)\<close> into the scratch buffer \<^verbatim>\<open>tmp\<close>.\<close>

definition idx :: "int \<Rightarrow> int \<Rightarrow> int \<Rightarrow> int \<Rightarrow> int \<Rightarrow> int" where
  "idx W C x y c = (y * W + x) * C + c"

text \<open>
  The loop bodies of the horizontal pass, for one and for three channels. The statement
  \<^verbatim>\<open>acc += w * v\<close> is a binary32 product followed by a binary32 sum.
\<close>

definition tap1 :: "'a elem_ops \<Rightarrow> Kernel1D \<Rightarrow> 'a Image \<Rightarrow> int \<Rightarrow> int \<Rightarrow> int \<Rightarrow>
    float32 \<Rightarrow> error + float32" where
  "tap1 cv k img y x dx acc =
     (let sx = clampi (x + dx) 0 (width img - 1) in
      bind_err (vec_at (k_w k) (dx + k_r k)) (\<lambda>wt.
      bind_err (img_at img y sx 0) (\<lambda>v.
      Inr (f_add acc (f_mul wt (to_f cv v))))))"

definition tap3 :: "'a elem_ops \<Rightarrow> Kernel1D \<Rightarrow> 'a Image \<Rightarrow> int \<Rightarrow> int \<Rightarrow> int \<Rightarrow>
    float32 \<times> float32 \<times> float32 \<Rightarrow> error + float32 \<times> float32 \<times> float32" where
  "tap3 cv k img y x dx st =
     (case st of (acc0, acc1, acc2) \<Rightarrow>
      let sx = clampi (x + dx) 0 (width img - 1) in
      bind_err (vec_at (k_w k) (dx + k_r k)) (\<lambda>wt.
      bind_err (img_at img y sx 0) (\<lambda>v0.
      bind_err (img_at img y sx 1) (\<lambda>v1.
      bind_err (img_at img y sx 2) (\<lambda>v2.
      Inr (f_add acc0 (f_mul wt (to_f cv v0)),
           f_add acc1 (f_mul wt (to_f cv v1)),
           f_add acc2 (f_mul wt (to_f cv v2))))))))"

definition hpass_pixel :: "'a elem_ops \<Rightarrow> Kernel1D \<Rightarrow> 'a Image \<Rightarrow> int \<Rightarrow> int \<Rightarrow>
    float32 list \<Rightarrow> error + float32 list" where
  "hpass_pixel cv k img y x tmp =
     (let W = width img; C = channels img; R = k_r k in
      if C = 1 then
        bind_err (for_loop [- R..R] (tap1 cv k img y x) (Fin 0)) (\<lambda>acc.
        vec_set tmp (idx W C x y 0) acc)
      else
        bind_err (for_loop [- R..R] (tap3 cv k img y x) (Fin 0, Fin 0, Fin 0)) (\<lambda>(acc0, acc1, acc2).
        bind_err (vec_set tmp (idx W C x y 0) acc0) (\<lambda>tmp.
        bind_err (vec_set tmp (idx W C x y 1) acc1) (\<lambda>tmp.
        vec_set tmp (idx W C x y 2) acc2))))"

text \<open>The loop bodies of the vertical pass, reading the scratch buffer.\<close>

definition vtap1 :: "Kernel1D \<Rightarrow> int \<Rightarrow> int \<Rightarrow> int \<Rightarrow> float32 list \<Rightarrow> int \<Rightarrow> int \<Rightarrow> int \<Rightarrow>
    float32 \<Rightarrow> error + float32" where
  "vtap1 k W H C tmp y x dy acc =
     (let sy = clampi (y + dy) 0 (H - 1) in
      bind_err (vec_at (k_w k) (dy + k_r k)) (\<lambda>wt.
      bind_err (vec_at tmp (idx W C x sy 0)) (\<lambda>t.
      Inr (f_add acc (f_mul wt t)))))"

definition vtap3 :: "Kernel1D \<Rightarrow> int \<Rightarrow> int \<Rightarrow> int \<Rightarrow> float32 list \<Rightarrow> int \<Rightarrow> int \<Rightarrow> int \<Rightarrow>
    float32 \<times> float32 \<times> float32 \<Rightarrow> error + float32 \<times> float32 \<times> float32" where
  "vtap3 k W H C tmp y x dy st =
     (case st of (acc0, acc1, acc2) \<Rightarrow>
      let sy = clampi (y + dy) 0 (H - 1) in
      bind_err (vec_at (k_w k) (dy + k_r k)) (\<lambda>wt.
      bind_err (vec_at tmp (idx W C x sy 0)) (\<lambda>t0.
      bind_err (vec_at tmp (idx W C x sy 1)) (\<lambda>t1.
      bind_err (vec_at tmp (idx W C x sy 2)) (\<lambda>t2.
      Inr (f_add acc0 (f_mul wt t0), f_add acc1 (f_mul wt t1), f_add acc2 (f_mul wt t2)))))))"

definition vpass_pixel :: "'a elem_ops \<Rightarrow> Kernel1D \<Rightarrow> int \<Rightarrow> int \<Rightarrow> int \<Rightarrow> float32 list \<Rightarrow>
    int \<Rightarrow> int \<Rightarrow> 'a Image \<Rightarrow> error + 'a Image" where
  "vpass_pixel cv k W H C tmp y x out =
     (let R = k_r k in
      if C = 1 then
        bind_err (for_loop [- R..R] (vtap1 k W H C tmp y x) (Fin 0)) (\<lambda>acc.
        img_set out y x 0 (from_f cv acc))
      else
        bind_err (for_loop [- R..R] (vtap3 k W H C tmp y x) (Fin 0, Fin 0, Fin 0)) (\<lambda>(acc0, acc1, acc2).
        bind_err (img_set out y x 0 (from_f cv acc0)) (\<lambda>out.
        bind_err (img_set out y x 1 (from_f cv acc1)) (\<lambda>out.
        img_set out y x 2 (from_f cv acc2)))))"

definition blur_image :: "'a elem_ops \<Rightarrow> (float32 \<Rightarrow> float32) \<Rightarrow> 'a \<Rightarrow> 'a Image \<Rightarrow> float32 \<Rightarrow>
    error + 'a Image" where
  "blur_image cv fexp z img strength =
     (if \<not> f_gt strength (Fin 0) then Inr img else
      let W = width img; H = height img; C = channels img in
      if \<not> (W > 0 \<and> H > 0) then Inl (Rassert 981234001) else
      if \<not> (C = 1 \<or> C = 3) then Inl (Rassert 981234002) else
      bind_err (makeGaussianKernel fexp strength) (\<lambda>k.
      if k_r k = 0 then Inr img else
      let tmp = replicate (nat (W * H * C)) (Fin 0) in
      bind_err (for_loop [0..H - 1] (\<lambda>y tmp.
                  for_loop [0..W - 1] (\<lambda>x tmp. hpass_pixel cv k img y x tmp) tmp) tmp) (\<lambda>tmp.
      let out = Image_new W H C z in
      for_loop [0..H - 1] (\<lambda>y out.
        for_loop [0..W - 1] (\<lambda>x out. vpass_pixel cv k W H C tmp y x out) out) out)))"

subsection \<open>blur.cpp: colour sequences\<close>

text \<open>
  Modelled from the spec: the class \<^verbatim>\<open>Color<T>\<close> of \<^verbatim>\<open>libimages/color.h\<close> is not part
  of the sources. The spec describes it as a fixed-arity tuple of 1 or 3 elements
  addressed by channel index and constructible from 1 or 3 scalars: a colour is the
  list of its channel values, \<^verbatim>\<open>channels()\<close> its length, \<^verbatim>\<open>color(c)\<close> a checked read.
  The scratch \<^verbatim>\<open>tmp\<close> is a vector of per-channel vectors.
\<close>

definition vec2_set :: "'a list list \<Rightarrow> int \<Rightarrow> int \<Rightarrow> 'a \<Rightarrow> error + 'a list list" where
  "vec2_set xss c i v =
     bind_err (vec_at xss c) (\<lambda>row. bind_err (vec_set row i v) (\<lambda>row. vec_set xss c row))"

definition vec2_at :: "'a list list \<Rightarrow> int \<Rightarrow> int \<Rightarrow> error + 'a" where
  "vec2_at xss c i = bind_err (vec_at xss c) (\<lambda>row. vec_at row i)"

definition ctap :: "'a elem_ops \<Rightarrow> Kernel1D \<Rightarrow> 'a list list \<Rightarrow> int \<Rightarrow> int \<Rightarrow> int \<Rightarrow>
    float32 \<Rightarrow> error + float32" where
  "ctap cv k colors i c d acc =
     (let si = clampi (i + d) 0 (int (length colors) - 1) in
      bind_err (vec_at (k_w k) (d + k_r k)) (\<lambda>wt.
      bind_err (vec_at colors si) (\<lambda>col.
      bind_err (vec_at col c) (\<lambda>v.
      Inr (f_add acc (f_mul wt (to_f cv v)))))))"

definition emit_color :: "'a elem_ops \<Rightarrow> int \<Rightarrow> float32 list list \<Rightarrow> int \<Rightarrow> 'a list list \<Rightarrow>
    error + 'a list list" where
  "emit_color cv C tmp i out =
     (if C = 1 then
        bind_err (vec2_at tmp 0 i) (\<lambda>a. Inr (out @ [[from_f cv a]]))
      else
        bind_err (vec2_at tmp 0 i) (\<lambda>a0.
        bind_err (vec2_at tmp 1 i) (\<lambda>a1.
        bind_err (vec2_at tmp 2 i) (\<lambda>a2.
        Inr (out @ [[from_f cv a0, from_f cv a1, from_f cv a2]])))))"

definition blur_colors :: "'a elem_ops \<Rightarrow> (float32 \<Rightarrow> float32) \<Rightarrow> 'a list list \<Rightarrow> float32 \<Rightarrow>
    error + 'a list list" where
  "blur_colors cv fexp colors strength =
     (if \<not> f_gt strength (Fin 0) then Inr colors else
      if colors = [] then Inr [] else
      bind_err (makeGaussianKernel fexp strength) (\<lambda>k.
      if k_r k = 0 then Inr colors else
      let R = k_r k; n = int (length colors) in
      bind_err (vec_at colors 0) (\<lambda>c0.
      let C = int (length c0) in
      if \<not> (C = 1 \<or> C = 3) then Inl (Rassert 981234003) else
      let tmp = replicate (nat C) (replicate (nat n) (Fin 0)) in
      bind_err (for_loop [0..n - 1] (\<lambda>i tmp.
                  for_loop [0..C - 1] (\<lambda>c tmp.
                    bind_err (for_loop [- R..R] (ctap cv k colors i c) (Fin 0)) (\<lambda>acc.
                    vec2_set tmp c i acc)) tmp) tmp) (\<lambda>tmp.
      for_loop [0..n - 1] (emit_color cv C tmp) []))))"

subsection \<open>The specification's convolution\<close>





subsection \<open>Proof vocabulary\<close>

text \<open>The source index the loops of \<open>downsample_image\<close> choose on one axis.\<close>

definition src_index :: "int \<Rightarrow> int \<Rightarrow> int \<Rightarrow> int" where
  "src_index tgt srcN i = (if tgt = 1 then safe_mid_index srcN else map_index_round i tgt srcN)"

text \<open>The value computed for the kernel tap at offset \<open>i\<close>, as a function of \<open>i * i\<close>.\<close>

definition tap_value :: "(float32 \<Rightarrow> float32) \<Rightarrow> float32 \<Rightarrow> int \<Rightarrow> float32" where
  "tap_value fexp inv2s2 q = fexp (f_mul (f_neg (f_of_int q)) inv2s2)"







text \<open>
  Rounding to binary32 without the overflow test, the rational value of a finite
  binary32 value, and the left-to-right binary32 sum of a list of rationals, which is
  what the accumulation \<^verbatim>\<open>sum += v\<close> of \<^verbatim>\<open>makeGaussianKernel\<close> computes on finite
  taps.
\<close>

definition fl32 :: "rat \<Rightarrow> rat" where
  "fl32 = fl 24 (- 126)"

definition fin_val :: "float32 \<Rightarrow> rat" where
  "fin_val v = (case v of Fin q \<Rightarrow> q | _ \<Rightarrow> 0)"

definition fsum32 :: "rat list \<Rightarrow> rat" where
  "fsum32 rs = foldl (\<lambda>a r. fl32 (a + r)) 0 rs"

subsection \<open>Example inputs\<close>

text \<open>The 5 by 5 one-channel image of the test suite, with value \<open>x + 10 y\<close> at (y, x).\<close>

definition gray5 :: "nat Image" where
  "gray5 = \<lparr>width = 5, height = 5, channels = 1, pix = (\<lambda>(y, x, c). nat (x + 10 * y))\<rparr>"

text \<open>
  A sample implementation of \<^verbatim>\<open>expf\<close> (a rational approximation, rounded to
  binary32), an impulse sequence, a one-channel image with a vertical edge, an image with
  an unsupported channel count, and the kernel the sample exponential gives for
  strength 1/4.
\<close>

definition exp_sample :: "float32 \<Rightarrow> float32" where
  "exp_sample v = (case v of Fin x \<Rightarrow> f_round (1 / (1 - x + x * x / 2)) | PInf \<Rightarrow> PInf | NInf \<Rightarrow> Fin 0 | NaN \<Rightarrow> NaN)"

definition impulse5 :: "8 word list list" where
  "impulse5 = [[0, 0, 0], [0, 0, 0], [255, 255, 255], [0, 0, 0], [0, 0, 0]]"

definition edge4 :: "8 word Image" where
  "edge4 = \<lparr>width = 4, height = 2, channels = 1, pix = (\<lambda>(y, x, c). if x < 2 then 0 else 200)\<rparr>"

definition two_channel :: "8 word Image" where
  "two_channel = \<lparr>width = 4, height = 2, channels = 2, pix = (\<lambda>p. 7)\<rparr>"

definition kernel_quarter :: Kernel1D where
  "kernel_quarter =
     \<lparr>k_w = [Fin (6242685 / 268435456), Fin (15996881 / 16777216), Fin (6242685 / 268435456)],
      k_r = 1\<rparr>"

section \<open>Lemmas\<close>

lemma bitlen_rat_bounds:
  assumes "0 < a"
  shows "(2::rat) powi (bitlen a - 1) \<le> of_int a" "of_int a < (2::rat) powi (bitlen a)"
proof -
  have b: "2 ^ nat (bitlen a - 1) \<le> a" "a < 2 ^ nat (bitlen a)"
    using bitlen_bounds [OF assms] by auto
  have ge1: "1 \<le> bitlen a" using assms by (auto simp: bitlen_alt_def)
  have "(of_int (2 ^ nat (bitlen a - 1)) :: rat) \<le> of_int a"
    using b(1) by (subst of_int_le_iff)
  then show "(2::rat) powi (bitlen a - 1) \<le> of_int a"
    using ge1 by (simp add: power_int_def)
  have "(of_int a :: rat) < of_int (2 ^ nat (bitlen a))"
    using b(2) by (subst of_int_less_iff)
  then show "of_int a < (2::rat) powi (bitlen a)"
    using ge1 by (simp add: power_int_def)
qed

lemma flog2_bounds:
  assumes "0 < x"
  shows "2 powi (flog2 x) \<le> x" "x < 2 powi (flog2 x + 1)"
proof -
  obtain a b where q: "quotient_of x = (a, b)" by force
  have bpos: "0 < b" using quotient_of_denom_pos [OF q] .
  have xeq: "x = of_int a / of_int b" using quotient_of_div [OF q] .
  have apos: "0 < a" using assms bpos xeq by (simp add: zero_less_divide_iff)
  define e0 where "e0 = bitlen a - bitlen b"
  have A: "(2::rat) powi (bitlen a - 1) \<le> of_int a" "of_int a < (2::rat) powi (bitlen a)"
    using bitlen_rat_bounds [OF apos] by auto
  have B: "(2::rat) powi (bitlen b - 1) \<le> of_int b" "of_int b < (2::rat) powi (bitlen b)"
    using bitlen_rat_bounds [OF bpos] by auto
  have brat: "(0::rat) < of_int b" using bpos by simp
  have lo: "2 powi (e0 - 1) \<le> x"
  proof -
    have "2 powi (e0 - 1) * of_int b \<le> 2 powi (e0 - 1) * (2::rat) powi (bitlen b)"
      using B(2) by (intro mult_left_mono) auto
    also have "\<dots> = 2 powi (bitlen a - 1)"
      by (simp add: e0_def power_int_add [symmetric])
    also have "\<dots> \<le> of_int a" using A(1) .
    finally show ?thesis using brat by (simp add: xeq pos_le_divide_eq)
  qed
  have hi: "x < 2 powi (e0 + 1)"
  proof -
    have "of_int a < (2::rat) powi (bitlen a)" using A(2) .
    also have "\<dots> = 2 powi (e0 + 1) * 2 powi (bitlen b - 1)"
      by (simp add: e0_def power_int_add [symmetric])
    also have "\<dots> \<le> 2 powi (e0 + 1) * of_int b"
      using B(1) by (intro mult_left_mono) auto
    finally show ?thesis using brat by (simp add: xeq pos_divide_less_eq)
  qed
  have fl: "flog2 x = (if 2 powi e0 \<le> x then e0 else e0 - 1)"
    by (simp add: flog2_def q e0_def Let_def)
  show "2 powi (flog2 x) \<le> x" using lo by (simp add: fl)
  show "x < 2 powi (flog2 x + 1)" using hi by (auto simp: fl)
qed

lemma pow2_less_imp:
  assumes "(2::rat) powi a < 2 powi b"
  shows "a < b"
proof (rule ccontr)
  assume "\<not> a < b"
  then have "b \<le> a" by simp
  then have "(2::rat) powi b \<le> 2 powi a" by (intro power_int_increasing) auto
  with assms show False by simp
qed

lemma flog2_ge:
  assumes "0 < x" "2 powi k \<le> x"
  shows "k \<le> flog2 x"
proof -
  have "(2::rat) powi k < 2 powi (flog2 x + 1)"
    using assms(2) flog2_bounds(2) [OF assms(1)] by linarith
  then have "k < flog2 x + 1" by (rule pow2_less_imp)
  then show ?thesis by simp
qed

lemma flog2_less:
  assumes "0 < x" "x < 2 powi k"
  shows "flog2 x < k"
proof -
  have "(2::rat) powi (flog2 x) < 2 powi k"
    using assms(2) flog2_bounds(1) [OF assms(1)] by linarith
  then show ?thesis by (rule pow2_less_imp)
qed

lemma rne_err: "\<bar>of_int (rne y) - y\<bar> \<le> 1/2"
proof -
  have "of_int \<lfloor>y\<rfloor> \<le> y" "y < of_int \<lfloor>y\<rfloor> + 1" by linarith+
  then show ?thesis by (auto simp: rne_def Let_def)
qed

lemma rne_of_int [simp]: "rne (of_int k) = k"
  by (simp add: rne_def Let_def)

lemma fl_zero [simp]: "fl p emin 0 = 0"
  by (simp add: fl_def)

lemma fl_err:
  assumes "x \<noteq> 0" "emin \<le> flog2 \<bar>x\<bar>"
  shows "\<bar>fl p emin x - x\<bar> \<le> \<bar>x\<bar> / 2 ^ p"
proof -
  define e where "e = flog2 \<bar>x\<bar>"
  define u :: rat where "u = 2 powi (e - int p + 1)"
  have upos: "0 < u" by (simp add: u_def)
  have flx: "fl p emin x = of_int (rne (x / u)) * u"
    using assms by (simp add: fl_def Let_def e_def u_def max_def)
  have "\<bar>fl p emin x - x\<bar> = \<bar>of_int (rne (x / u)) - x / u\<bar> * u"
  proof -
    have "fl p emin x - x = (of_int (rne (x / u)) - x / u) * u"
      using upos by (simp add: flx field_simps)
    then show ?thesis using upos by (simp add: abs_mult)
  qed
  also have "\<dots> \<le> (1/2) * u"
    using rne_err [of "x / u"] upos by (intro mult_right_mono) auto
  also have "\<dots> = 2 powi e / 2 ^ p"
    by (simp add: u_def power_int_add power_int_diff)
  also have "\<dots> \<le> \<bar>x\<bar> / 2 ^ p"
    using flog2_bounds(1) [of "\<bar>x\<bar>"] assms(1) by (simp add: e_def divide_right_mono)
  finally show ?thesis .
qed

lemma fl_exact:
  assumes "x \<noteq> 0" "emin \<le> flog2 \<bar>x\<bar>" "x / 2 powi (flog2 \<bar>x\<bar> - int p + 1) = of_int k"
  shows "fl p emin x = x"
proof -
  have "fl p emin x = of_int (rne (x / 2 powi (flog2 \<bar>x\<bar> - int p + 1))) * 2 powi (flog2 \<bar>x\<bar> - int p + 1)"
    using assms(1,2) by (simp add: fl_def Let_def max_def)
  also have "\<dots> = x"
    unfolding assms(3) rne_of_int using assms(3) [symmetric] by simp
  finally show ?thesis .
qed

lemma fl_half_int:
  assumes "0 < j" "j < 2 ^ p" "emin \<le> - 1" "0 < p"
  shows "fl p emin (of_int j / 2) = of_int j / 2"
proof -
  define x :: rat where "x = of_int j / 2"
  have xpos: "0 < x" using assms(1) by (simp add: x_def)
  have "x < 2 powi (int p - 1)"
  proof -
    have "(of_int j :: rat) < of_int (2 ^ p)" using assms(2) by (subst of_int_less_iff)
    then have "(of_int j :: rat) < 2 ^ p" by simp
    then show ?thesis using assms(4) by (simp add: x_def power_int_diff)
  qed
  then have e_hi: "flog2 x < int p - 1" using flog2_less [OF xpos] by simp
  have "(2::rat) powi (-1) \<le> x" using assms(1) by (simp add: x_def)
  then have e_lo: "- 1 \<le> flog2 x" using flog2_ge [OF xpos] by simp
  define d where "d = nat (int p - 2 - flog2 x)"
  have dd: "int d = int p - 2 - flog2 x" using e_hi by (simp add: d_def)
  have "x / 2 powi (flog2 x - int p + 1) = x * 2 powi (int d + 1)"
    by (simp add: dd power_int_diff power_int_add field_simps)
  also have "\<dots> = of_int (j * 2 ^ d)"
    by (simp add: x_def power_int_add)
  finally have "x / 2 powi (flog2 \<bar>x\<bar> - int p + 1) = of_int (j * 2 ^ d)"
    using xpos by simp
  moreover have "emin \<le> flog2 \<bar>x\<bar>" using e_lo assms(3) xpos by simp
  ultimately have "fl p emin x = x" using xpos by (intro fl_exact [where k = "j * 2 ^ d"]) auto
  then show ?thesis by (simp add: x_def)
qed

lemma fl_int:
  assumes "0 \<le> k" "2 * k < 2 ^ p" "emin \<le> - 1" "0 < p"
  shows "fl p emin (of_int k) = of_int k"
proof (cases "k = 0")
  case True
  then show ?thesis by simp
next
  case False
  then have "0 < 2 * k" using assms(1) by simp
  from fl_half_int [OF this assms(2) assms(3) assms(4)] show ?thesis by simp
qed

lemma fl64_err:
  assumes "0 < x" "2 powi (- 1022) \<le> x"
  shows "\<bar>fl64 x - x\<bar> \<le> x / 2 ^ 53"
proof -
  have "- 1022 \<le> flog2 \<bar>x\<bar>" using flog2_ge [of x "- 1022"] assms by simp
  from fl_err [of x "- 1022" 53, OF _ this] assms(1) show ?thesis
    by (simp add: fl64_def)
qed

lemma fl64_int: "0 \<le> k \<Longrightarrow> k < 2 ^ 52 \<Longrightarrow> fl64 (of_int k) = of_int k"
  unfolding fl64_def by (rule fl_int) auto




lemma d_of_int_exact: "0 \<le> k \<Longrightarrow> k < 2 ^ 52 \<Longrightarrow> d_of_int k = of_int k"
  by (simp add: d_of_int_def fl64_int)


lemma lround_zero [simp]: "lround 0 = 0"
proof -
  have "\<lfloor>(1::rat) / 2\<rfloor> = 0" by linarith
  then show ?thesis by (simp add: lround_def)
qed

lemma map_index_round_first:
  "map_index_round 0 n m = clampi 0 0 (m - 1)"
  by (simp add: map_index_round_def d_of_int_def d_mul_def d_div_def fl64_def)

lemma map_index_round_range:
  "1 \<le> m \<Longrightarrow> 0 \<le> map_index_round i n m \<and> map_index_round i n m \<le> m - 1"
  by (simp add: map_index_round_def clampi_def Let_def)

lemma lround_near:
  assumes "0 \<le> b" "\<bar>y - of_int b\<bar> < 1/2"
  shows "lround y = b"
proof -
  have "\<lfloor>y + 1/2\<rfloor> = b" using assms(2) by linarith
  moreover have "y < 0 \<Longrightarrow> b = 0 \<and> - 1/2 < y" using assms by linarith
  moreover have "y < 0 \<Longrightarrow> - 1/2 < y \<Longrightarrow> \<lfloor>- y + 1/2\<rfloor> = 0" by linarith
  ultimately show ?thesis by (auto simp: lround_def)
qed

lemma map_index_round_last:
  assumes "2 \<le> n" "n \<le> 2147483647" "1 \<le> m" "m \<le> 2147483647"
  shows "map_index_round (n - 1) n m = m - 1"
proof (cases "m = 1")
  case True
  then show ?thesis
    by (simp add: map_index_round_def d_of_int_def d_mul_def d_div_def fl64_def clampi_def)
next
  case False
  define a where "a = n - 1"
  define b where "b = m - 1"
  have a1: "1 \<le> a" "a < 2 ^ 52" using assms(1,2) by (simp_all add: a_def)
  have b1: "1 \<le> b" "b < 2 ^ 52" "b \<le> 2147483646" using assms(3,4) False by (simp_all add: b_def)
  have ar: "(1::rat) \<le> of_int a" and br: "(1::rat) \<le> of_int b" "(of_int b :: rat) \<le> 2147483646"
    using a1(1) b1(1) b1(3) by (simp_all add: int_one_le_iff_zero_less of_int_le_numeral_iff)
  have ea: "d_of_int a = of_int a" using a1 by (intro d_of_int_exact) auto
  have eb: "d_of_int b = of_int b" using b1 by (intro d_of_int_exact) auto
  define P :: rat where "P = of_int a * of_int b"
  define P' where "P' = fl64 P"
  define x where "x = P' / of_int a"
  define y where "y = fl64 x"
  have P1: "1 \<le> P" unfolding P_def using ar br(1) by (metis mult_mono' mult_1 zero_le_one order.trans)
  have "(2::rat) powi (- 1022) \<le> 1" by (simp add: power_int_minus_divide)
  then have Plow: "2 powi (- 1022) \<le> P" using P1 by linarith
  have errP: "\<bar>P' - P\<bar> \<le> P / 2 ^ 53"
    unfolding P'_def using fl64_err [OF _ Plow] P1 by simp
  have xb: "\<bar>x - of_int b\<bar> \<le> of_int b / 2 ^ 53"
  proof -
    have "x - of_int b = (P' - P) / of_int a" using ar by (simp add: x_def P_def field_simps)
    then have "\<bar>x - of_int b\<bar> = \<bar>P' - P\<bar> / of_int a" using ar by (simp add: abs_divide)
    also have "\<dots> \<le> (P / 2 ^ 53) / of_int a" using errP ar by (intro divide_right_mono) auto
    also have "\<dots> = of_int b / 2 ^ 53" using ar by (simp add: P_def)
    finally show ?thesis .
  qed
  have bsmall: "of_int b / 2 ^ 53 \<le> (1::rat) / 4" using br(2) by simp
  have xlo: "1 / 2 \<le> x" using xb br(1) bsmall by linarith
  have xhi: "x \<le> 2 * of_int b" using xb br(1) bsmall by linarith
  have "(2::rat) powi (- 1022) \<le> 1 / 2" by (simp add: power_int_minus_divide)
  then have xlow: "2 powi (- 1022) \<le> x" using xlo by linarith
  have erry: "\<bar>y - x\<bar> \<le> x / 2 ^ 53"
    unfolding y_def using fl64_err [OF _ xlow] xlo by simp
  have "x / 2 ^ 53 \<le> 2 * of_int b / 2 ^ 53" using xhi by (intro divide_right_mono) auto
  then have "\<bar>y - of_int b\<bar> \<le> 3 * of_int b / 2 ^ 53" using erry xb by linarith
  moreover have "3 * of_int b / 2 ^ 53 < (1::rat) / 2" using br(2) by simp
  ultimately have "\<bar>y - of_int b\<bar> < 1 / 2" by linarith
  then have "lround y = b" using b1(1) by (intro lround_near) auto
  moreover have "y = d_div (d_mul (d_of_int (n - 1)) (d_of_int (m - 1))) (d_of_int (n - 1))"
    using ea eb by (simp add: y_def x_def P'_def P_def d_div_def d_mul_def a_def b_def)
  ultimately show ?thesis using b1(1)
    by (simp add: map_index_round_def Let_def clampi_def b_def)
qed

lemma bind_err_Inr [simp]: "bind_err (Inr v) f = f v"
  by (simp add: bind_err_def)

lemma bind_err_Inl [simp]: "bind_err (Inl e) f = Inl e"
  by (simp add: bind_err_def)

lemma for_loop_upto_rule:
  assumes step: "\<And>i s. lo \<le> i \<Longrightarrow> i \<le> hi \<Longrightarrow> I i s \<Longrightarrow> \<exists>s'. body i s = Inr s' \<and> I (i + 1) s'"
  shows "lo \<le> j \<Longrightarrow> j \<le> hi + 1 \<Longrightarrow> I j s \<Longrightarrow> \<exists>s'. for_loop [j..hi] body s = Inr s' \<and> I (hi + 1) s'"
proof (induction "nat (hi + 1 - j)" arbitrary: j s)
  case 0
  then have "j = hi + 1" by simp
  then show ?case using 0 by simp
next
  case (Suc k)
  then have jle: "j \<le> hi" by simp
  obtain s' where s': "body j s = Inr s'" "I (j + 1) s'"
    using step [OF Suc.prems(1) jle Suc.prems(3)] by blast
  have "k = nat (hi + 1 - (j + 1))" using Suc.hyps(2) by simp
  from Suc.hyps(1) [OF this _ _ s'(2)] Suc.prems(1) jle
  obtain s'' where "for_loop [j + 1..hi] body s' = Inr s''" "I (hi + 1) s''" by auto
  then show ?case using jle s'(1) by (simp add: upto_rec1 [of j hi])
qed

lemma src_index_range:
  "0 < srcN \<Longrightarrow> 0 \<le> src_index tgt srcN i \<and> src_index tgt srcN i < srcN"
  using map_index_round_range [of srcN i tgt]
  by (auto simp: src_index_def safe_mid_index_def)

lemma vec_at_ok: "0 \<le> i \<Longrightarrow> i < int (length xs) \<Longrightarrow> vec_at xs i = Inr (xs ! nat i)"
  by (simp add: vec_at_def)

lemma downsample_colors_general:
  assumes "2 \<le> n" "n < int (length colors)"
  shows "\<exists>out. downsample_colors colors n = Inr out \<and> int (length out) = n \<and>
           (\<forall>i. 0 \<le> i \<and> i < n \<longrightarrow>
              out ! nat i = colors ! nat (map_index_round i n (int (length colors))))"
proof -
  define m where "m = int (length colors)"
  define I where "I = (\<lambda>i (out :: 'a list). int (length out) = i \<and>
      (\<forall>k. 0 \<le> k \<and> k < i \<longrightarrow> out ! nat k = colors ! nat (map_index_round k n m)))"
  define body where "body = (\<lambda>i out.
      bind_err (vec_at colors (map_index_round i n m)) (\<lambda>c. Inr (out @ [c])))"
  have m1: "1 \<le> m" using assms by (simp add: m_def)
  have step: "\<exists>s'. body i s = Inr s' \<and> I (i + 1) s'" if "0 \<le> i" "i \<le> n - 1" "I i s" for i s
  proof -
    let ?j = "map_index_round i n m"
    have r: "0 \<le> ?j" "?j < int (length colors)"
      using map_index_round_range [OF m1, of i n] by (simp_all add: m_def)
    have b: "body i s = Inr (s @ [colors ! nat ?j])"
      by (simp add: body_def vec_at_ok [OF r])
    have "int (length s) = i" using that(3) by (simp add: I_def)
    then have len: "length s = nat i" by linarith
    have "I (i + 1) (s @ [colors ! nat ?j])"
      unfolding I_def
    proof (intro conjI allI impI)
      show "int (length (s @ [colors ! nat ?j])) = i + 1" using that(1) len by simp
    next
      fix k assume k: "0 \<le> k \<and> k < i + 1"
      show "(s @ [colors ! nat ?j]) ! nat k = colors ! nat (map_index_round k n m)"
      proof (cases "k = i")
        case True
        then show ?thesis using len by (simp add: nth_append)
      next
        case False
        then have "nat k < length s" using k len by simp
        then show ?thesis using that(3) k False by (simp add: nth_append I_def)
      qed
    qed
    with b show ?thesis by blast
  qed
  have I0: "I 0 []" by (auto simp: I_def)
  obtain out where out: "for_loop [0..n - 1] body [] = Inr out" "I (n - 1 + 1) out"
    using for_loop_upto_rule [of 0 "n - 1" I body 0 "[]", OF step _ _ I0] assms(1)
    by auto
  have "downsample_colors colors n = for_loop [0..n - 1] body []"
    using assms by (auto simp: downsample_colors_def Let_def body_def m_def)
  then show ?thesis using out by (simp add: I_def m_def)
qed

lemma copy_pixel_ok:
  assumes "ch = channels src" "channels out = ch" "ch = 1 \<or> ch = 3"
    and "0 \<le> sy" "sy < height src" "0 \<le> sx" "sx < width src"
    and "0 \<le> y" "y < height out" "0 \<le> x" "x < width out"
  shows "\<exists>out'. copy_pixel src ch sy sx y x out = Inr out' \<and>
           width out' = width out \<and> height out' = height out \<and> channels out' = channels out \<and>
           (\<forall>c. 0 \<le> c \<and> c < ch \<longrightarrow> pix out' (y, x, c) = pix src (sy, sx, c)) \<and>
           (\<forall>y' x' c. (y', x') \<noteq> (y, x) \<longrightarrow> pix out' (y', x', c) = pix out (y', x', c))"
proof -
  consider "ch = 1" | "ch = 3" using assms(3) by blast
  then show ?thesis
  proof cases
    case 1
    have c1: "\<And>c. 0 \<le> c \<and> c < (1::int) \<longleftrightarrow> c = 0" by auto
    show ?thesis using assms 1
      by (simp add: copy_pixel_def img_at_def img_set_def in_image_def c1)
  next
    case 2
    have c3: "\<And>c. 0 \<le> c \<and> c < (3::int) \<longleftrightarrow> c = 0 \<or> c = 1 \<or> c = 2" by auto
    show ?thesis using assms 2
      by (auto simp: copy_pixel_def img_at_def img_set_def in_image_def c3)
  qed
qed

lemma downsample_image_pixels:
  assumes "0 < w" "0 < h" "0 < width src" "0 < height src"
    and "channels src = 1 \<or> channels src = 3"
  shows "\<exists>out. downsample_image z src w h = Inr out \<and>
           width out = w \<and> height out = h \<and> channels out = channels src \<and>
           (\<forall>y x c. 0 \<le> y \<and> y < h \<and> 0 \<le> x \<and> x < w \<and> 0 \<le> c \<and> c < channels src \<longrightarrow>
              pix out (y, x, c) =
              pix src (src_index h (height src) y, src_index w (width src) x, c))"
proof -
  define ch where "ch = channels src"
  define SY where "SY = src_index h (height src)"
  define SX where "SX = src_index w (width src)"
  define F where "F = (\<lambda>y x (out :: 'a Image).
      width out = w \<and> height out = h \<and> channels out = ch \<and>
      (\<forall>y' x' c. 0 \<le> c \<and> c < ch \<and> 0 \<le> x' \<and> x' < w \<and> 0 \<le> y' \<and>
          (y' < y \<or> (y' = y \<and> x' < x)) \<longrightarrow> pix out (y', x', c) = pix src (SY y', SX x', c)))"
  define inner where "inner = (\<lambda>y x out. copy_pixel src ch (SY y) (SX x) y x out)"
  define outer where "outer = (\<lambda>y out. for_loop [0..w - 1] (inner y) out)"
  have SYr: "0 \<le> SY y \<and> SY y < height src" for y
    unfolding SY_def using assms(4) by (rule src_index_range)
  have SXr: "0 \<le> SX x \<and> SX x < width src" for x
    unfolding SX_def using assms(3) by (rule src_index_range)
  have inner_step: "\<exists>s'. inner y x s = Inr s' \<and> F y (x + 1) s'"
    if "0 \<le> y" "y \<le> h - 1" "0 \<le> x" "x \<le> w - 1" "F y x s" for y x s
  proof -
    note pre = that
    have d: "width s = w" "height s = h" "channels s = ch" using that(5) by (simp_all add: F_def)
    obtain s' where s': "copy_pixel src ch (SY y) (SX x) y x s = Inr s'"
      "width s' = width s" "height s' = height s" "channels s' = channels s"
      "\<forall>c. 0 \<le> c \<and> c < ch \<longrightarrow> pix s' (y, x, c) = pix src (SY y, SX x, c)"
      "\<forall>y' x' c. (y', x') \<noteq> (y, x) \<longrightarrow> pix s' (y', x', c) = pix s (y', x', c)"
    proof -
      have "ch = channels src" "channels s = ch" "ch = 1 \<or> ch = 3"
        "0 \<le> SY y" "SY y < height src" "0 \<le> SX x" "SX x < width src"
        "0 \<le> y" "y < height s" "0 \<le> x" "x < width s"
        using assms(5) SYr [of y] SXr [of x] pre d by (simp_all add: ch_def)
      from copy_pixel_ok [OF this] that show ?thesis by blast
    qed
    have "F y (x + 1) s'"
      unfolding F_def
    proof (intro conjI allI impI)
      fix y' x' c
      assume a: "0 \<le> c \<and> c < ch \<and> 0 \<le> x' \<and> x' < w \<and> 0 \<le> y' \<and> (y' < y \<or> y' = y \<and> x' < x + 1)"
      show "pix s' (y', x', c) = pix src (SY y', SX x', c)"
      proof (cases "(y', x') = (y, x)")
        case True
        then show ?thesis using s'(5) a by simp
      next
        case False
        then have "pix s' (y', x', c) = pix s (y', x', c)" using s'(6) by simp
        moreover have "y' < y \<or> (y' = y \<and> x' < x)" using a False by auto
        ultimately show ?thesis using that(5) a by (simp add: F_def)
      qed
    qed (simp_all add: s' d)
    then show ?thesis using s'(1) by (auto simp: inner_def)
  qed
  have outer_step: "\<exists>s'. outer y s = Inr s' \<and> F (y + 1) 0 s'"
    if "0 \<le> y" "y \<le> h - 1" "F y 0 s" for y s
  proof -
    note pre = that
    obtain s' where s': "for_loop [0..w - 1] (inner y) s = Inr s'" "F y (w - 1 + 1) s'"
      using for_loop_upto_rule [of 0 "w - 1" "F y" "inner y" 0 s] inner_step [OF pre(1,2)] pre(3) assms(1)
      by auto
    have "F (y + 1) 0 s'"
      unfolding F_def
    proof (intro conjI allI impI)
      fix y' x' c
      assume a: "0 \<le> c \<and> c < ch \<and> 0 \<le> x' \<and> x' < w \<and> 0 \<le> y' \<and> (y' < y + 1 \<or> y' = y + 1 \<and> x' < 0)"
      then have "0 \<le> c \<and> c < ch \<and> 0 \<le> x' \<and> x' < w \<and> 0 \<le> y' \<and> (y' < y \<or> y' = y \<and> x' < w - 1 + 1)"
        by auto
      then show "pix s' (y', x', c) = pix src (SY y', SX x', c)"
        using s'(2) unfolding F_def by blast
    qed (use s'(2) in \<open>simp_all add: F_def\<close>)
    then show ?thesis using s'(1) by (auto simp: outer_def)
  qed
  have F0: "F 0 0 (Image_new w h ch z)" by (auto simp: F_def Image_new_def)
  obtain out where out: "for_loop [0..h - 1] outer (Image_new w h ch z) = Inr out" "F (h - 1 + 1) 0 out"
    using for_loop_upto_rule [of 0 "h - 1" "\<lambda>y. F y 0" outer 0 "Image_new w h ch z"] outer_step F0 assms(2)
    by auto
  have "downsample_image z src w h = for_loop [0..h - 1] outer (Image_new w h ch z)"
    using assms
    by (simp add: downsample_image_def Let_def outer_def inner_def SY_def SX_def src_index_def ch_def)
  then show ?thesis using out unfolding F_def by (auto simp: ch_def SY_def SX_def)
qed

lemma src_index_first: "2 \<le> tgt \<Longrightarrow> 1 \<le> srcN \<Longrightarrow> src_index tgt srcN 0 = 0"
  by (simp add: src_index_def map_index_round_first clampi_def)

lemma src_index_last:
  "2 \<le> tgt \<Longrightarrow> tgt \<le> 2147483647 \<Longrightarrow> 1 \<le> srcN \<Longrightarrow> srcN \<le> 2147483647 \<Longrightarrow>
   src_index tgt srcN (tgt - 1) = srcN - 1"
  by (simp add: src_index_def map_index_round_last)


lemma for_loop_upto_rule2:
  assumes step: "\<And>i s. lo \<le> i \<Longrightarrow> i \<le> hi \<Longrightarrow> I i s \<Longrightarrow>
      (\<exists>s'. body i s = Inr s' \<and> I (i + 1) s') \<or> (\<exists>e. body i s = Inl e \<and> E e)"
  shows "lo \<le> j \<Longrightarrow> j \<le> hi + 1 \<Longrightarrow> I j s \<Longrightarrow>
      (\<exists>s'. for_loop [j..hi] body s = Inr s' \<and> I (hi + 1) s') \<or>
      (\<exists>e. for_loop [j..hi] body s = Inl e \<and> E e)"
proof (induction "nat (hi + 1 - j)" arbitrary: j s)
  case 0
  then have "j = hi + 1" by simp
  then show ?case using 0 by simp
next
  case (Suc k)
  then have jle: "j \<le> hi" by simp
  have unf: "for_loop [j..hi] body s = bind_err (body j s) (for_loop [j + 1..hi] body)"
    using jle by (simp add: upto_rec1 [of j hi])
  from step [OF Suc.prems(1) jle Suc.prems(3)] show ?case
  proof
    assume "\<exists>s'. body j s = Inr s' \<and> I (j + 1) s'"
    then obtain s' where s': "body j s = Inr s'" "I (j + 1) s'" by blast
    have "k = nat (hi + 1 - (j + 1))" using Suc.hyps(2) by simp
    from Suc.hyps(1) [OF this _ _ s'(2)] Suc.prems(1) jle
    show ?thesis by (simp add: unf s'(1))
  next
    assume "\<exists>e. body j s = Inl e \<and> E e"
    then show ?thesis by (auto simp: unf)
  qed
qed








lemma vec_set_ok:
  "0 \<le> i \<Longrightarrow> i < int (length xs) \<Longrightarrow> vec_set xs i v = Inr (xs[nat i := v])"
  by (simp add: vec_set_def)

lemma kernel_tap_step:
  assumes "0 \<le> R" "- R \<le> i" "i \<le> R" "length ws = nat (2 * R + 1)"
    and "\<forall>j. - R \<le> j \<and> j < i \<longrightarrow> ws ! nat (j + R) = tap_value fexp inv2s2 (j * j)"
  shows "(\<exists>ws' acc'. kernel_tap fexp inv2s2 R i (ws, acc) = Inr (ws', acc') \<and>
            length ws' = nat (2 * R + 1) \<and>
            (\<forall>j. - R \<le> j \<and> j < i + 1 \<longrightarrow> ws' ! nat (j + R) = tap_value fexp inv2s2 (j * j))) \<or>
         (2147483647 < i * i \<and> kernel_tap fexp inv2s2 R i (ws, acc) = Inl UndefinedBehaviour)"
proof (cases "2147483647 < i * i")
  case True
  then show ?thesis by (simp add: kernel_tap_def)
next
  case False
  let ?v = "tap_value fexp inv2s2 (i * i)"
  have r: "0 \<le> i + R" "i + R < int (length ws)" using assms by auto
  have k: "kernel_tap fexp inv2s2 R i (ws, acc) = Inr (ws[nat (i + R) := ?v], f_add acc ?v)"
    using False by (simp add: kernel_tap_def vec_set_ok [OF r] tap_value_def Let_def)
  have "(ws[nat (i + R) := ?v]) ! nat (j + R) = tap_value fexp inv2s2 (j * j)"
    if "- R \<le> j \<and> j < i + 1" for j
  proof (cases "j = i")
    case True
    then show ?thesis using r by simp
  next
    case False
    then have "nat (j + R) \<noteq> nat (i + R)" using that assms(2) by auto
    then show ?thesis using assms(5) that False by simp
  qed
  then show ?thesis using k assms(4) by auto
qed

lemma kernel_loop:
  assumes "0 \<le> R"
  shows "(\<exists>ws acc. for_loop [- R..R] (kernel_tap fexp inv2s2 R)
              (replicate (nat (2 * R + 1)) (Fin 0), Fin 0) = Inr (ws, acc) \<and>
            length ws = nat (2 * R + 1) \<and>
            (\<forall>j. - R \<le> j \<and> j \<le> R \<longrightarrow> ws ! nat (j + R) = tap_value fexp inv2s2 (j * j))) \<or>
         (2147483647 < R * R \<and>
          for_loop [- R..R] (kernel_tap fexp inv2s2 R)
              (replicate (nat (2 * R + 1)) (Fin 0), Fin 0) = Inl UndefinedBehaviour)"
proof -
  define I where "I = (\<lambda>i (st :: float32 list \<times> float32). length (fst st) = nat (2 * R + 1) \<and>
      (\<forall>j. - R \<le> j \<and> j < i \<longrightarrow> fst st ! nat (j + R) = tap_value fexp inv2s2 (j * j)))"
  define E where "E = (\<lambda>e. e = UndefinedBehaviour \<and> 2147483647 < R * R)"
  have step: "(\<exists>s'. kernel_tap fexp inv2s2 R i s = Inr s' \<and> I (i + 1) s') \<or>
              (\<exists>e. kernel_tap fexp inv2s2 R i s = Inl e \<and> E e)"
    if "- R \<le> i" "i \<le> R" "I i s" for i s
  proof -
    obtain ws acc where s: "s = (ws, acc)" by (cases s)
    have l: "length ws = nat (2 * R + 1)"
      and v: "\<forall>j. - R \<le> j \<and> j < i \<longrightarrow> ws ! nat (j + R) = tap_value fexp inv2s2 (j * j)"
      using that(3) by (simp_all add: I_def s)
    have big: "i * i \<le> R * R"
    proof -
      have "\<bar>i\<bar> \<le> R" using that by simp
      then have "\<bar>i\<bar> * \<bar>i\<bar> \<le> R * R" by (intro mult_mono) auto
      then show ?thesis by simp
    qed
    from kernel_tap_step [OF assms that(1,2) l v, of acc] show ?thesis
      using big by (auto simp: s I_def E_def)
  qed
  have I0: "I (- R) (replicate (nat (2 * R + 1)) (Fin 0), Fin 0)" by (auto simp: I_def)
  from for_loop_upto_rule2 [of "- R" R I "kernel_tap fexp inv2s2 R" E "- R", OF step _ _ I0] assms
  show ?thesis by (auto simp: I_def E_def)
qed

lemma makeGaussianKernel_not_positive:
  "\<not> f_gt sigma (Fin 0) \<Longrightarrow> makeGaussianKernel fexp sigma = Inr \<lparr>k_w = [], k_r = 0\<rparr>"
  by (simp add: makeGaussianKernel_def)

lemma f_to_int_cases: "f_to_int v = Inl UndefinedBehaviour \<or> (\<exists>c. f_to_int v = Inr c)"
  by (cases v) (auto simp: Let_def)

lemma makeGaussianKernel_shape:
  "makeGaussianKernel fexp sigma = Inl UndefinedBehaviour \<or>
   (\<exists>k. makeGaussianKernel fexp sigma = Inr k \<and> 0 \<le> k_r k \<and>
        (k_r k \<noteq> 0 \<longrightarrow> length (k_w k) = nat (2 * k_r k + 1)))"
proof (cases "f_gt sigma (Fin 0)")
  case False
  then show ?thesis by (simp add: makeGaussianKernel_not_positive)
next
  case True
  define s where "s = f_max f_0001 sigma"
  define inv2s2 where "inv2s2 = f_div (Fin 1) (f_mul (f_mul (Fin 2) s) s)"
  from f_to_int_cases [of "f_ceil (f_mul (Fin 3) s)"] show ?thesis
  proof
    assume "f_to_int (f_ceil (f_mul (Fin 3) s)) = Inl UndefinedBehaviour"
    then show ?thesis using True by (simp add: makeGaussianKernel_def s_def Let_def)
  next
    assume "\<exists>c. f_to_int (f_ceil (f_mul (Fin 3) s)) = Inr c"
    then obtain c where c: "f_to_int (f_ceil (f_mul (Fin 3) s)) = Inr c" by blast
    define R where "R = max 0 c"
    have R0: "0 \<le> R" by (simp add: R_def)
    show ?thesis
    proof (cases "2147483647 < 2 * R + 1")
      case True
      then show ?thesis using \<open>f_gt sigma (Fin 0)\<close> c
        by (simp add: makeGaussianKernel_def s_def [symmetric] Let_def R_def [symmetric])
    next
      case False
      have unf: "makeGaussianKernel fexp sigma =
          bind_err (for_loop [- R..R] (kernel_tap fexp inv2s2 R) (replicate (nat (2 * R + 1)) (Fin 0), Fin 0))
            (\<lambda>(ws, acc). Inr \<lparr>k_w = (if f_gt acc (Fin 0) then map (\<lambda>v. f_div v acc) ws else ws), k_r = R\<rparr>)"
        using \<open>f_gt sigma (Fin 0)\<close> c False
        by (simp add: makeGaussianKernel_def s_def [symmetric] Let_def R_def [symmetric] inv2s2_def [symmetric])
      from kernel_loop [OF R0, of fexp inv2s2] show ?thesis
        using R0 by (auto simp: unf)
    qed
  qed
qed

lemma makeGaussianKernel_no_bounds_error:
  "makeGaussianKernel fexp sigma \<noteq> Inl OutOfBounds \<and> makeGaussianKernel fexp sigma \<noteq> Inl (Rassert t)"
  using makeGaussianKernel_shape [of fexp sigma] by auto





















lemma kernel_quarter_eval: "makeGaussianKernel exp_sample (Fin (1 / 4)) = Inr kernel_quarter"
  by code_simp

lemma f_le_zero_not_gt: "f_le strength (Fin 0) \<Longrightarrow> \<not> f_gt strength (Fin 0)"
  by (cases strength) (auto simp: f_gt_def)



lemma f_0001_value: "f_0001 = Fin (8589935 / 8589934592)"
  by code_simp

lemma f_max_0001: "f_max f_0001 (Fin x) = Fin (max (8589935 / 8589934592) x)"
  by (simp add: f_0001_value f_max_def max_def)

lemma fl32_positive:
  assumes "8589935 / 8589934592 \<le> t"
  shows "0 < fl 24 (- 126) (3 * t)" "fl 24 (- 126) (3 * t) \<le> 3 * t + 3 * t / 2 ^ 24"
proof -
  have tpos: "0 < 3 * t" using assms by simp
  have "(2::rat) powi (- 126) \<le> 1 / 2 ^ 126" by (simp add: power_int_minus_divide)
  also have "\<dots> \<le> 3 * (8589935 / 8589934592)" by simp
  also have "\<dots> \<le> 3 * t" using assms by simp
  finally have "- 126 \<le> flog2 (3 * t)" using flog2_ge [OF tpos] by simp
  then have "- 126 \<le> flog2 \<bar>3 * t\<bar>" using tpos by simp
  from fl_err [of "3 * t" "- 126" 24, OF _ this] tpos
  have e: "\<bar>fl 24 (- 126) (3 * t) - 3 * t\<bar> \<le> 3 * t / 2 ^ 24" by simp
  have "3 * t / 2 ^ 24 < 3 * t" using tpos by simp
  then show "0 < fl 24 (- 126) (3 * t)" using e by linarith
  show "fl 24 (- 126) (3 * t) \<le> 3 * t + 3 * t / 2 ^ 24" using e by linarith
qed

lemma radius_cast_positive:
  assumes "0 < x" "f_to_int (f_ceil (f_mul (Fin 3) (f_max f_0001 (Fin x)))) = Inr c"
  shows "1 \<le> c"
proof -
  define t :: rat where "t = max (8589935 / 8589934592) x"
  define y where "y = fl 24 (- 126) (3 * t)"
  have ypos: "0 < y" unfolding y_def by (rule fl32_positive(1)) (simp add: t_def)
  have m: "f_mul (Fin 3) (f_max f_0001 (Fin x)) = f_round (3 * t)"
    by (simp add: f_max_0001 t_def)
  have fm: "0 < flt_max" by (simp add: flt_max_def)
  show ?thesis
  proof (cases "flt_max < y")
    case True
    then have "f_round (3 * t) = PInf" by (simp add: f_round_def y_def Let_def)
    then show ?thesis using assms(2) m by simp
  next
    case False
    then have "f_round (3 * t) = Fin y" using ypos fm by (simp add: f_round_def y_def Let_def)
    then have "f_to_int (Fin (of_int \<lceil>y\<rceil>)) = Inr c" using assms(2) m by simp
    moreover have "0 < \<lceil>y\<rceil>" using ypos by simp
    ultimately have "c = \<lceil>y\<rceil>" by (auto simp: Let_def split: if_splits)
    then show ?thesis using \<open>0 < \<lceil>y\<rceil>\<close> by simp
  qed
qed

lemma radius_cast_small:
  assumes "0 < x" "x \<le> 15000"
  shows "\<exists>c. f_to_int (f_ceil (f_mul (Fin 3) (f_max f_0001 (Fin x)))) = Inr c \<and> 1 \<le> c \<and> c \<le> 45001"
proof -
  define t :: rat where "t = max (8589935 / 8589934592) x"
  define y where "y = fl 24 (- 126) (3 * t)"
  have t1: "8589935 / 8589934592 \<le> t" "t \<le> 15000" using assms by (simp_all add: t_def)
  have ypos: "0 < y" unfolding y_def using t1(1) by (rule fl32_positive(1))
  have "y \<le> 3 * t + 3 * t / 2 ^ 24" unfolding y_def using t1(1) by (rule fl32_positive(2))
  also have "\<dots> \<le> 3 * 15000 + 3 * 15000 / 2 ^ 24" using t1(2) by (intro add_mono divide_right_mono) auto
  also have "\<dots> \<le> 45001" by simp
  finally have yhi: "y \<le> 45001" .
  have m: "f_mul (Fin 3) (f_max f_0001 (Fin x)) = f_round (3 * t)"
    by (simp add: f_max_0001 t_def)
  have "(45001::rat) \<le> flt_max" by (simp add: flt_max_def)
  then have "\<not> flt_max < y" "\<not> y < - flt_max" using yhi ypos by auto
  then have r: "f_round (3 * t) = Fin y" by (simp add: f_round_def y_def Let_def)
  have c1: "0 < \<lceil>y\<rceil>" using ypos by simp
  have c2: "\<lceil>y\<rceil> \<le> 45001" using yhi by (simp add: ceiling_le_iff)
  have "f_to_int (f_ceil (f_mul (Fin 3) (f_max f_0001 (Fin x)))) = Inr \<lceil>y\<rceil>"
    using c1 c2 by (simp add: m r Let_def)
  then show ?thesis using c1 c2 by auto
qed

lemma makeGaussianKernel_positive:
  assumes "f_gt sigma (Fin 0)"
  shows "(\<exists>c k. f_to_int (f_ceil (f_mul (Fin 3) (f_max f_0001 sigma))) = Inr c \<and>
            makeGaussianKernel fexp sigma = Inr k \<and> k_r k = max 0 c \<and>
            length (k_w k) = nat (2 * k_r k + 1) \<and>
            (\<forall>j. - k_r k \<le> j \<and> j \<le> k_r k \<longrightarrow> k_w k ! nat (j + k_r k) = k_w k ! nat (- j + k_r k))) \<or>
         (makeGaussianKernel fexp sigma = Inl UndefinedBehaviour \<and>
          (\<forall>c. f_to_int (f_ceil (f_mul (Fin 3) (f_max f_0001 sigma))) = Inr c \<longrightarrow>
               2147483647 < max 0 c * max 0 c))"
proof -
  define s where "s = f_max f_0001 sigma"
  define inv2s2 where "inv2s2 = f_div (Fin 1) (f_mul (f_mul (Fin 2) s) s)"
  from f_to_int_cases [of "f_ceil (f_mul (Fin 3) s)"] show ?thesis
  proof
    assume "f_to_int (f_ceil (f_mul (Fin 3) s)) = Inl UndefinedBehaviour"
    then show ?thesis using assms by (simp add: makeGaussianKernel_def s_def Let_def)
  next
    assume "\<exists>c. f_to_int (f_ceil (f_mul (Fin 3) s)) = Inr c"
    then obtain c where c: "f_to_int (f_ceil (f_mul (Fin 3) s)) = Inr c" by blast
    define R where "R = max 0 c"
    have R0: "0 \<le> R" by (simp add: R_def)
    show ?thesis
    proof (cases "2147483647 < 2 * R + 1")
      case True
      then have "2147483647 < R * R"
      proof -
        have "2 * R + 1 \<le> R * R" if "3 \<le> R"
        proof -
          have "3 * R \<le> R * R" using that by (intro mult_right_mono) auto
          then show ?thesis using that by linarith
        qed
        then show ?thesis using True by auto
      qed
      then show ?thesis using assms c True
        by (simp add: makeGaussianKernel_def s_def [symmetric] Let_def R_def [symmetric])
    next
      case False
      have unf: "makeGaussianKernel fexp sigma =
          bind_err (for_loop [- R..R] (kernel_tap fexp inv2s2 R) (replicate (nat (2 * R + 1)) (Fin 0), Fin 0))
            (\<lambda>(ws, acc). Inr \<lparr>k_w = (if f_gt acc (Fin 0) then map (\<lambda>v. f_div v acc) ws else ws), k_r = R\<rparr>)"
        using assms c False
        by (simp add: makeGaussianKernel_def s_def [symmetric] Let_def R_def [symmetric] inv2s2_def [symmetric])
      from kernel_loop [OF R0, of fexp inv2s2] show ?thesis
      proof
        assume "\<exists>ws acc. for_loop [- R..R] (kernel_tap fexp inv2s2 R)
              (replicate (nat (2 * R + 1)) (Fin 0), Fin 0) = Inr (ws, acc) \<and>
            length ws = nat (2 * R + 1) \<and>
            (\<forall>j. - R \<le> j \<and> j \<le> R \<longrightarrow> ws ! nat (j + R) = tap_value fexp inv2s2 (j * j))"
        then obtain ws acc where w: "for_loop [- R..R] (kernel_tap fexp inv2s2 R)
              (replicate (nat (2 * R + 1)) (Fin 0), Fin 0) = Inr (ws, acc)"
          "length ws = nat (2 * R + 1)"
          "\<forall>j. - R \<le> j \<and> j \<le> R \<longrightarrow> ws ! nat (j + R) = tap_value fexp inv2s2 (j * j)"
          by blast
        define k where "k = \<lparr>k_w = (if f_gt acc (Fin 0) then map (\<lambda>v. f_div v acc) ws else ws), k_r = R\<rparr>"
        have mk: "makeGaussianKernel fexp sigma = Inr k" by (simp add: unf w(1) k_def)
        have kr: "k_r k = R" by (simp add: k_def)
        have len: "length (k_w k) = nat (2 * R + 1)" using w(2) by (simp add: k_def)
        have sym: "k_w k ! nat (j + R) = k_w k ! nat (- j + R)" if "- R \<le> j \<and> j \<le> R" for j
        proof -
          have a: "nat (j + R) < length ws" "nat (- j + R) < length ws" using that w(2) by auto
          have "ws ! nat (j + R) = ws ! nat (- j + R)"
            using w(3) [rule_format, of j] w(3) [rule_format, of "- j"] that by simp
          then show ?thesis using a by (simp add: k_def)
        qed
        show ?thesis using c mk kr len sym unfolding s_def R_def by (intro disjI1 exI [of _ c] exI [of _ k]) simp
      next
        assume "2147483647 < R * R \<and> for_loop [- R..R] (kernel_tap fexp inv2s2 R)
              (replicate (nat (2 * R + 1)) (Fin 0), Fin 0) = Inl UndefinedBehaviour"
        then show ?thesis using c by (simp add: unf s_def R_def)
      qed
    qed
  qed
qed


lemma downsample_colors_in_bounds: "downsample_colors colors n \<noteq> Inl OutOfBounds"
proof -
  let ?m = "int (length colors)"
  consider "n \<le> 0" | "0 < n" "colors = []" | "0 < n" "colors \<noteq> []" "?m \<le> n"
    | "colors \<noteq> []" "n < ?m" "n = 1" | "2 \<le> n" "n < ?m"
    by linarith
  then show ?thesis
  proof cases
    case 1
    then show ?thesis by (simp add: downsample_colors_def)
  next
    case 2
    then show ?thesis by (simp add: downsample_colors_def)
  next
    case 3
    then show ?thesis by (simp add: downsample_colors_def)
  next
    case 4
    then have "0 \<le> ?m div 2" "?m div 2 < ?m" by auto
    then have "vec_at colors (?m div 2) = Inr (colors ! nat (?m div 2))" by (rule vec_at_ok)
    then show ?thesis using 4 by (simp add: downsample_colors_def Let_def)
  next
    case 5
    then show ?thesis using downsample_colors_general [of n colors] by auto
  qed
qed












lemma rne_nonneg: "0 \<le> y \<Longrightarrow> 0 \<le> rne y"
  by (auto simp: rne_def Let_def)

lemma rne_le_int:
  assumes "y \<le> of_int N"
  shows "rne y \<le> N"
proof (cases "y = of_int N")
  case True
  then show ?thesis by simp
next
  case False
  then have "y < of_int N" using assms by simp
  then have "\<lfloor>y\<rfloor> < N" by (simp add: floor_less_iff)
  then show ?thesis by (auto simp: rne_def Let_def)
qed

lemma rne_nonpos:
  assumes "y \<le> 0"
  shows "rne y \<le> 0"
  using rne_le_int [of y 0] assms by simp

lemma fl_nonneg: "0 \<le> z \<Longrightarrow> 0 \<le> fl p emin z"
  by (auto simp: fl_def Let_def intro!: mult_nonneg_nonneg rne_nonneg divide_nonneg_pos)

lemma fl_nonpos:
  assumes "z \<le> 0"
  shows "fl p emin z \<le> 0"
proof (cases "z = 0")
  case True
  then show ?thesis by simp
next
  case False
  define u :: rat where "u = 2 powi (max (flog2 \<bar>z\<bar>) emin - int p + 1)"
  have upos: "0 < u" by (simp add: u_def)
  have "z / u \<le> 0" using assms upos by (simp add: divide_nonpos_pos)
  then have "rne (z / u) \<le> 0" by (rule rne_nonpos)
  then have "of_int (rne (z / u)) * u \<le> 0" using upos by (simp add: mult_le_0_iff)
  then show ?thesis using False by (simp add: fl_def Let_def u_def)
qed

lemma fl32_err: "\<bar>fl32 z - z\<bar> \<le> \<bar>z\<bar> / 2 ^ 24 + 1 / 2 ^ 150"
proof (cases "z = 0")
  case True
  then show ?thesis by (simp add: fl32_def)
next
  case False
  show ?thesis
  proof (cases "- 126 \<le> flog2 \<bar>z\<bar>")
    case True
    from fl_err [OF False True, of 24] have "\<bar>fl32 z - z\<bar> \<le> \<bar>z\<bar> / 2 ^ 24"
      by (simp add: fl32_def)
    moreover have "(0::rat) \<le> 1 / 2 ^ 150" by simp
    ultimately show ?thesis by linarith
  next
    case sub: False
    define u :: rat where "u = 2 powi (- 149)"
    have upos: "0 < u" by (simp add: u_def)
    have f: "fl32 z = of_int (rne (z / u)) * u"
      using False sub by (simp add: fl32_def fl_def Let_def max_def u_def)
    have "fl32 z - z = (of_int (rne (z / u)) - z / u) * u"
      using upos by (simp add: f field_simps)
    then have "\<bar>fl32 z - z\<bar> = \<bar>of_int (rne (z / u)) - z / u\<bar> * u"
      using upos by (simp add: abs_mult)
    also have "\<dots> \<le> (1 / 2) * u"
      using rne_err [of "z / u"] upos by (intro mult_right_mono) auto
    also have "\<dots> = 1 / 2 ^ 150" by (simp add: u_def power_int_minus_divide)
    finally have "\<bar>fl32 z - z\<bar> \<le> 1 / 2 ^ 150" .
    moreover have "0 \<le> \<bar>z\<bar> / 2 ^ 24" by simp
    ultimately show ?thesis by linarith
  qed
qed

lemma fl32_upper: "0 \<le> z \<Longrightarrow> fl32 z \<le> 2 * z + 1"
proof -
  assume z: "0 \<le> z"
  have "z / 2 ^ 24 \<le> z" using z by (simp add: field_simps)
  moreover have "(1::rat) / 2 ^ 150 \<le> 1" by simp
  ultimately show ?thesis using fl32_err [of z] z by linarith
qed

lemma fl32_lower:
  assumes "1 / 2 ^ 100 \<le> z"
  shows "z / 2 \<le> fl32 z"
proof -
  have "(0::rat) < 1 / 2 ^ 100" by simp
  then have z: "0 < z" using assms by linarith
  have "(1::rat) / 2 ^ 150 \<le> (1 / 2 ^ 100) / 4" by simp
  moreover have "(1 / 2 ^ 100) / 4 \<le> z / 4" using assms by (intro divide_right_mono) auto
  ultimately have "(1::rat) / 2 ^ 150 \<le> z / 4" by (rule order_trans)
  moreover have "z / 2 ^ 24 \<le> z / 4" using z by (simp add: field_simps)
  ultimately show ?thesis using fl32_err [of z] z by linarith
qed

lemma f_round_small:
  assumes "\<bar>z\<bar> \<le> 2 ^ 100"
  shows "f_round z = Fin (fl32 z)"
proof -
  have "\<bar>z\<bar> / 2 ^ 24 \<le> \<bar>z\<bar>" by (simp add: field_simps)
  moreover have "(1::rat) / 2 ^ 150 \<le> 1" by simp
  ultimately have "\<bar>fl32 z\<bar> \<le> 2 * \<bar>z\<bar> + 1" using fl32_err [of z] by linarith
  also have "\<dots> \<le> 2 * 2 ^ 100 + 1" using assms by simp
  also have "\<dots> \<le> flt_max" by (simp add: flt_max_def)
  finally have "\<bar>fl32 z\<bar> \<le> flt_max" .
  then show ?thesis by (auto simp: f_round_def fl32_def Let_def)
qed

lemma fl32_le_one:
  assumes "0 \<le> z" "z \<le> 1"
  shows "fl32 z \<le> 1"
proof (cases "z = 0")
  case True
  then show ?thesis by (simp add: fl32_def)
next
  case False
  then have zpos: "0 < z" using assms by simp
  define e where "e = max (flog2 \<bar>z\<bar>) (- 126)"
  define u :: rat where "u = 2 powi (e - 23)"
  have upos: "0 < u" by (simp add: u_def)
  have "flog2 z < 1" using flog2_less [OF zpos, of 1] assms(2) by simp
  then have e0: "e \<le> 0" using zpos by (simp add: e_def)
  define N :: int where "N = 2 ^ nat (23 - e)"
  have Nu: "of_int N * u = 1"
  proof -
    have "(of_int N :: rat) = 2 powi (23 - e)" using e0 by (simp add: N_def power_int_def)
    then have "of_int N * u = 2 powi (23 - e) * 2 powi (e - 23)" by (simp add: u_def)
    also have "\<dots> = 2 powi 0" by (subst power_int_add [symmetric]) auto
    finally show ?thesis by simp
  qed
  then have "1 / u = of_int N" using upos by (simp add: field_simps)
  then have "z / u \<le> of_int N" using assms(2) upos by (metis divide_right_mono less_imp_le)
  then have "rne (z / u) \<le> N" by (rule rne_le_int)
  then have "of_int (rne (z / u)) * u \<le> of_int N * u"
    using upos by (intro mult_right_mono) auto
  then have "of_int (rne (z / u)) * u \<le> 1" using Nu by simp
  moreover have "fl32 z = of_int (rne (z / u)) * u"
    using False by (simp add: fl32_def fl_def Let_def e_def u_def)
  ultimately show ?thesis by simp
qed

lemma f_round_fl32: "\<bar>z\<bar> \<le> 2 ^ 100 \<Longrightarrow> f_round z = Fin (fl32 z)"
  by (rule f_round_small)

lemma inv2s2_value:
  assumes "8589935 / 8589934592 \<le> t" "t \<le> 15000"
  shows "\<exists>b. f_div (Fin 1) (f_mul (f_mul (Fin 2) (Fin t)) (Fin t)) = Fin b \<and> 0 \<le> b \<and> b \<le> 2 ^ 23"
proof -
  have tpos: "0 < t" using assms(1) by simp
  define y1 where "y1 = fl32 (2 * t)"
  have "\<bar>2 * t\<bar> \<le> 2 ^ 100" using assms tpos by simp
  then have m1: "f_mul (Fin 2) (Fin t) = Fin y1" by (simp add: y1_def f_round_fl32)
  have "(1::rat) / 2 ^ 100 \<le> 2 * (8589935 / 8589934592)" by simp
  then have "1 / 2 ^ 100 \<le> 2 * t" using assms(1) by linarith
  from fl32_lower [OF this] have y1lo: "t \<le> y1" by (simp add: y1_def)
  have y1hi: "y1 \<le> 60001" using fl32_upper [of "2 * t"] assms tpos by (simp add: y1_def)
  define y2 where "y2 = fl32 (y1 * t)"
  have p: "0 \<le> y1 * t" using y1lo tpos by simp
  have "y1 * t \<le> 60001 * 15000" using y1hi assms(2) y1lo tpos by (intro mult_mono) auto
  then have phi: "y1 * t \<le> 900015000" by simp
  then have "\<bar>y1 * t\<bar> \<le> 2 ^ 100" using p by simp
  then have m2: "f_mul (Fin y1) (Fin t) = Fin y2" by (simp add: y2_def f_round_fl32)
  have sq: "(8589935 / 8589934592) * (8589935 / 8589934592) \<le> y1 * t"
    using assms(1) y1lo by (intro mult_mono) auto
  have "(1::rat) / 2 ^ 100 \<le> (8589935 / 8589934592) * (8589935 / 8589934592)" by simp
  then have "1 / 2 ^ 100 \<le> y1 * t" using sq by linarith
  from fl32_lower [OF this] have "y1 * t / 2 \<le> y2" by (simp add: y2_def)
  moreover have "(1::rat) / 2 ^ 21 \<le> (8589935 / 8589934592) * (8589935 / 8589934592) / 2" by simp
  ultimately have y2lo: "1 / 2 ^ 21 \<le> y2" using sq by linarith
  have "(0::rat) < 1 / 2 ^ 21" by simp
  then have y2pos: "0 < y2" using y2lo by linarith
  have inv: "1 / y2 \<le> 2 ^ 21"
  proof -
    have "1 \<le> y2 * 2 ^ 21" using y2lo by (simp add: field_simps)
    then show ?thesis using y2pos by (simp add: field_simps)
  qed
  define b where "b = fl32 (1 / y2)"
  have i0: "0 \<le> 1 / y2" using y2pos by simp
  then have "\<bar>1 / y2\<bar> \<le> 2 ^ 100" using inv by simp
  then have d: "f_div (Fin 1) (Fin y2) = Fin b" using y2pos by (simp add: b_def f_round_fl32)
  have "0 \<le> b" unfolding b_def fl32_def using i0 by (rule fl_nonneg)
  moreover have "b \<le> 2 ^ 23" using fl32_upper [OF i0] inv by (simp add: b_def)
  ultimately show ?thesis using m1 m2 d by simp
qed

lemma square_value:
  assumes "\<bar>i\<bar> \<le> 45001"
  shows "\<exists>a. f_of_int (i * i) = Fin a \<and> 0 \<le> a \<and> a \<le> 2 ^ 33 \<and> (i = 0 \<longrightarrow> a = 0)"
proof -
  have "\<bar>i\<bar> * \<bar>i\<bar> \<le> 45001 * 45001" using assms by (intro mult_mono) auto
  then have sq: "i * i \<le> 2025090001" "0 \<le> i * i" by simp_all
  then have q: "(of_int (i * i) :: rat) \<le> 2025090001" "(0::rat) \<le> of_int (i * i)"
    by (simp_all add: of_int_le_numeral_iff del: of_int_mult)
  define a where "a = fl32 (of_int (i * i))"
  have "(2025090001::rat) \<le> 2 ^ 100" by simp
  then have "\<bar>of_int (i * i) :: rat\<bar> \<le> 2 ^ 100" using q by linarith
  then have "f_of_int (i * i) = Fin a" by (simp add: f_of_int_def a_def f_round_fl32 del: of_int_mult)
  moreover have "0 \<le> a" unfolding a_def fl32_def using q(2) by (rule fl_nonneg)
  moreover have "a \<le> 2 ^ 33" using fl32_upper [OF q(2)] q(1) by (simp add: a_def del: of_int_mult)
  moreover have "i = 0 \<longrightarrow> a = 0" by (simp add: a_def fl32_def)
  ultimately show ?thesis by blast
qed

lemma tap_argument:
  assumes "8589935 / 8589934592 \<le> t" "t \<le> 15000" "\<bar>i\<bar> \<le> 45001"
  shows "\<exists>q. f_mul (f_neg (f_of_int (i * i)))
              (f_div (Fin 1) (f_mul (f_mul (Fin 2) (Fin t)) (Fin t))) = Fin q \<and>
           q \<le> 0 \<and> (i = 0 \<longrightarrow> q = 0)"
proof -
  obtain b where b: "f_div (Fin 1) (f_mul (f_mul (Fin 2) (Fin t)) (Fin t)) = Fin b"
    "0 \<le> b" "b \<le> 2 ^ 23"
    using inv2s2_value [OF assms(1,2)] by blast
  obtain a where a: "f_of_int (i * i) = Fin a" "0 \<le> a" "a \<le> 2 ^ 33" "i = 0 \<longrightarrow> a = 0"
    using square_value [OF assms(3)] by blast
  have "a * b \<le> 2 ^ 33 * 2 ^ 23" using a(2,3) b(2,3) by (intro mult_mono) auto
  moreover have ab: "0 \<le> a * b" using a(2) b(2) by simp
  ultimately have "\<bar>- a * b\<bar> \<le> 2 ^ 100" by simp
  then have m: "f_mul (Fin (- a)) (Fin b) = Fin (fl32 (- a * b))" by (simp add: f_round_fl32)
  have "fl32 (- a * b) \<le> 0" unfolding fl32_def using ab by (intro fl_nonpos) simp
  moreover have "i = 0 \<longrightarrow> fl32 (- a * b) = 0" using a(4) by (simp add: fl32_def)
  ultimately show ?thesis unfolding a(1) b(1) f_neg.simps m by blast
qed

lemma kernel_loop_acc:
  assumes "0 \<le> R" "R * R \<le> 2147483647"
  shows "for_loop [- R..R] (kernel_tap fexp inv2s2 R) (replicate (nat (2 * R + 1)) (Fin 0), Fin 0) =
           Inr (map (\<lambda>j. tap_value fexp inv2s2 (j * j)) [- R..R],
                foldl (\<lambda>a j. f_add a (tap_value fexp inv2s2 (j * j))) (Fin 0) [- R..R])"
proof -
  let ?tap = "\<lambda>j. tap_value fexp inv2s2 (j * j)"
  let ?f = "\<lambda>a j. f_add a (?tap j)"
  define I where "I = (\<lambda>i (st :: float32 list \<times> float32). length (fst st) = nat (2 * R + 1) \<and>
      (\<forall>j. - R \<le> j \<and> j < i \<longrightarrow> fst st ! nat (j + R) = ?tap j) \<and>
      snd st = foldl ?f (Fin 0) [- R..i - 1])"
  have step: "\<exists>s'. kernel_tap fexp inv2s2 R i s = Inr s' \<and> I (i + 1) s'"
    if "- R \<le> i" "i \<le> R" "I i s" for i s
  proof -
    note pre = that
    obtain ws acc where s: "s = (ws, acc)" by (cases s)
    have l: "length ws = nat (2 * R + 1)"
      and v: "\<forall>j. - R \<le> j \<and> j < i \<longrightarrow> ws ! nat (j + R) = ?tap j"
      and c: "acc = foldl ?f (Fin 0) [- R..i - 1]"
      using pre(3) by (simp_all add: I_def s)
    have "\<bar>i\<bar> \<le> R" using pre by simp
    then have "\<bar>i\<bar> * \<bar>i\<bar> \<le> R * R" by (intro mult_mono) auto
    then have small: "\<not> 2147483647 < i * i" using assms(2) by simp
    have r: "0 \<le> i + R" "i + R < int (length ws)" using pre l assms(1) by auto
    have k: "kernel_tap fexp inv2s2 R i (ws, acc) = Inr (ws[nat (i + R) := ?tap i], f_add acc (?tap i))"
      using small by (simp add: kernel_tap_def vec_set_ok [OF r] tap_value_def Let_def)
    have vals: "(ws[nat (i + R) := ?tap i]) ! nat (j + R) = ?tap j" if "- R \<le> j \<and> j < i + 1" for j
    proof (cases "j = i")
      case True
      then show ?thesis using r by simp
    next
      case False
      then have "nat (j + R) \<noteq> nat (i + R)" using that pre(1) by auto
      then show ?thesis using v that False by simp
    qed
    have "[- R..i] = [- R..i - 1] @ [i]" using pre(1) by (simp add: upto_rec2 [of "- R" i])
    then have "foldl ?f (Fin 0) [- R..i + 1 - 1] = f_add acc (?tap i)" by (simp add: c)
    then have "I (i + 1) (ws[nat (i + R) := ?tap i], f_add acc (?tap i))"
      using l vals by (simp add: I_def)
    then show ?thesis using k s by blast
  qed
  have I0: "I (- R) (replicate (nat (2 * R + 1)) (Fin 0), Fin 0)" by (auto simp: I_def)
  from for_loop_upto_rule [of "- R" R I "kernel_tap fexp inv2s2 R" "- R", OF step _ _ I0] assms(1)
  obtain ws acc where w: "for_loop [- R..R] (kernel_tap fexp inv2s2 R)
        (replicate (nat (2 * R + 1)) (Fin 0), Fin 0) = Inr (ws, acc)" "I (R + 1) (ws, acc)"
    by auto
  have l: "length ws = nat (2 * R + 1)"
    and v: "\<forall>j. - R \<le> j \<and> j < R + 1 \<longrightarrow> ws ! nat (j + R) = ?tap j"
    and c: "acc = foldl ?f (Fin 0) [- R..R]"
    using w(2) by (simp_all add: I_def)
  have "ws = map ?tap [- R..R]"
  proof (rule nth_equalityI)
    show "length ws = length (map ?tap [- R..R])" using l assms(1) by simp
  next
    fix n assume n: "n < length ws"
    then have b: "- R + int n \<le> R" using l by simp
    have "map ?tap [- R..R] ! n = ?tap (- R + int n)"
      using n l assms(1) by (simp add: nth_upto [OF b])
    moreover have "ws ! nat ((- R + int n) + R) = ?tap (- R + int n)"
      using v [rule_format, of "- R + int n"] b by simp
    moreover have "nat ((- R + int n) + R) = n" by simp
    ultimately show "ws ! n = map ?tap [- R..R] ! n" by simp
  qed
  then show ?thesis using w(1) c by simp
qed

lemma fsum32_snoc: "fsum32 (xs @ [x]) = fl32 (fsum32 xs + x)"
  by (simp add: fsum32_def)

lemma sum_list_unit_bounds:
  fixes rs :: "rat list"
  assumes "\<forall>r\<in>set rs. 0 \<le> r \<and> r \<le> 1"
  shows "0 \<le> sum_list rs \<and> sum_list rs \<le> of_nat (length rs)"
  using assms by (induction rs) auto

lemma member_le_sum_list_rat:
  fixes rs :: "rat list"
  assumes "\<forall>r\<in>set rs. 0 \<le> r" "x \<in> set rs"
  shows "x \<le> sum_list rs"
  using assms
proof (induction rs)
  case Nil
  then show ?case by simp
next
  case (Cons r rs)
  have "0 \<le> sum_list rs" using Cons.prems(1) by (intro sum_list_nonneg) simp
  then show ?case using Cons by auto
qed

lemma fsum32_err:
  assumes "\<forall>r\<in>set rs. 0 \<le> r \<and> r \<le> 1" "length rs \<le> 2 ^ 20"
  shows "0 \<le> fsum32 rs \<and>
         \<bar>fsum32 rs - sum_list rs\<bar> \<le> 2 * of_nat (length rs) * (sum_list rs / 2 ^ 24 + 1 / 2 ^ 150)"
  using assms
proof (induction rs rule: rev_induct)
  case Nil
  then show ?case by (simp add: fsum32_def)
next
  case (snoc x xs)
  define a where "a = fsum32 xs"
  define S where "S = sum_list xs"
  define n :: rat where "n = of_nat (length xs)"
  define T where "T = (S + x) / 2 ^ 24 + 1 / 2 ^ 150"
  define E where "E = \<bar>a - S\<bar>"
  have x: "0 \<le> x" "x \<le> 1" using snoc.prems(1) by simp_all
  have S0: "0 \<le> S" unfolding S_def using snoc.prems(1) by (intro sum_list_nonneg) simp
  have len: "length xs \<le> 2 ^ 20" using snoc.prems(2) by simp
  then have "(of_nat (length xs) :: rat) \<le> of_nat (2 ^ 20)" by (simp only: of_nat_le_iff)
  then have n: "0 \<le> n" "n \<le> 2 ^ 20" by (simp_all add: n_def)
  have ih: "0 \<le> a" "E \<le> 2 * n * (S / 2 ^ 24 + 1 / 2 ^ 150)"
    using snoc.IH snoc.prems(1) len by (simp_all add: a_def S_def n_def E_def)
  have T0: "0 \<le> T" using S0 x(1) by (simp add: T_def)
  have "S / 2 ^ 24 + 1 / 2 ^ 150 \<le> T" using x(1) by (simp add: T_def divide_right_mono)
  then have "2 * n * (S / 2 ^ 24 + 1 / 2 ^ 150) \<le> 2 * n * T" using n(1) by (intro mult_left_mono) auto
  then have E: "E \<le> 2 * n * T" using ih(2) by linarith
  have E0: "0 \<le> E" by (simp add: E_def)
  have "E / 2 ^ 24 \<le> 2 * n * T / 2 ^ 24" using E by (intro divide_right_mono) auto
  also have "\<dots> = T * (2 * n / 2 ^ 24)" by simp
  also have "\<dots> \<le> T * 1" using T0 n(2) by (intro mult_left_mono) auto
  finally have Eu: "E / 2 ^ 24 \<le> T" by simp
  have ax: "0 \<le> a + x" using ih(1) x(1) by simp
  have "a \<le> S + E" by (simp add: E_def)
  then have "(a + x) / 2 ^ 24 \<le> (S + x + E) / 2 ^ 24" by (intro divide_right_mono) auto
  also have "\<dots> = (S + x) / 2 ^ 24 + E / 2 ^ 24" by (simp add: add_divide_distrib)
  finally have au: "(a + x) / 2 ^ 24 \<le> (S + x) / 2 ^ 24 + E / 2 ^ 24" .
  have e: "\<bar>fl32 (a + x) - (a + x)\<bar> \<le> (a + x) / 2 ^ 24 + 1 / 2 ^ 150"
    using fl32_err [of "a + x"] ax by simp
  have "\<bar>fl32 (a + x) - (S + x)\<bar> \<le> \<bar>fl32 (a + x) - (a + x)\<bar> + E" by (simp add: E_def)
  also have "\<dots> \<le> T + E / 2 ^ 24 + E" using e au unfolding T_def by linarith
  also have "\<dots> \<le> T + T + 2 * n * T" using Eu E by linarith
  also have "\<dots> = 2 * (n + 1) * T" by (simp add: algebra_simps)
  finally have r: "\<bar>fl32 (a + x) - (S + x)\<bar> \<le> 2 * (n + 1) * T" .
  have "0 \<le> fl32 (a + x)" unfolding fl32_def using ax by (rule fl_nonneg)
  then show ?case using r
    by (simp add: fsum32_snoc a_def S_def n_def T_def add.commute)
qed

lemma fsum32_close:
  assumes "\<forall>r\<in>set rs. 0 \<le> r \<and> r \<le> 1" "length rs \<le> 2 ^ 20"
  shows "\<bar>fsum32 rs - sum_list rs\<bar> \<le> sum_list rs / 8 + 1 / 2 ^ 129"
proof -
  define S where "S = sum_list rs"
  define n :: rat where "n = of_nat (length rs)"
  have S0: "0 \<le> S" unfolding S_def using assms(1) by (intro sum_list_nonneg) simp
  have "(of_nat (length rs) :: rat) \<le> of_nat (2 ^ 20)" using assms(2) by (simp only: of_nat_le_iff)
  then have n: "0 \<le> n" "n \<le> 2 ^ 20" by (simp_all add: n_def)
  have "\<bar>fsum32 rs - S\<bar> \<le> 2 * n * (S / 2 ^ 24 + 1 / 2 ^ 150)"
    using fsum32_err [OF assms] by (simp add: S_def n_def)
  also have "\<dots> = S * (2 * n / 2 ^ 24) + 2 * n / 2 ^ 150" by (simp add: algebra_simps)
  also have "\<dots> \<le> S * (1 / 8) + 2 * 2 ^ 20 / 2 ^ 150"
    using S0 n by (intro add_mono mult_left_mono divide_right_mono) auto
  also have "\<dots> = S / 8 + 1 / 2 ^ 129" by simp
  finally show ?thesis by (simp add: S_def)
qed

lemma foldl_f_add_fin:
  assumes "\<forall>r\<in>set rs. 0 \<le> r \<and> r \<le> 1" "length rs \<le> 2 ^ 20"
  shows "foldl f_add (Fin 0) (map Fin rs) = Fin (fsum32 rs)"
  using assms
proof (induction rs rule: rev_induct)
  case Nil
  then show ?case by (simp add: fsum32_def)
next
  case (snoc x xs)
  have p: "\<forall>r\<in>set xs. 0 \<le> r \<and> r \<le> 1" "length xs \<le> 2 ^ 20" using snoc.prems by simp_all
  have x: "0 \<le> x" "x \<le> 1" using snoc.prems(1) by simp_all
  have ih: "foldl f_add (Fin 0) (map Fin xs) = Fin (fsum32 xs)" using snoc.IH p by simp
  have a0: "0 \<le> fsum32 xs" using fsum32_err [OF p] by simp
  have "(of_nat (length xs) :: rat) \<le> of_nat (2 ^ 20)" using p(2) by (simp only: of_nat_le_iff)
  then have "sum_list xs \<le> 2 ^ 20" using sum_list_unit_bounds [OF p(1)] by simp
  moreover have "(1::rat) / 2 ^ 129 \<le> 1" by simp
  ultimately have "fsum32 xs \<le> 2 ^ 20 + 2 ^ 20 / 8 + 1" using fsum32_close [OF p] by linarith
  then have "fsum32 xs + x \<le> 2 ^ 100" using x(2) by simp
  then have "\<bar>fsum32 xs + x\<bar> \<le> 2 ^ 100" using a0 x(1) by simp
  then have "f_round (fsum32 xs + x) = Fin (fl32 (fsum32 xs + x))" by (rule f_round_small)
  then show ?case by (simp add: ih fsum32_snoc)
qed

lemma sum_list_err:
  fixes f g h :: "'a \<Rightarrow> rat"
  assumes "\<forall>r\<in>set rs. \<bar>f r - g r\<bar> \<le> h r"
  shows "\<bar>sum_list (map f rs) - sum_list (map g rs)\<bar> \<le> sum_list (map h rs)"
  using assms
proof (induction rs)
  case Nil
  then show ?case by simp
next
  case (Cons r rs)
  have "\<bar>f r - g r\<bar> \<le> h r" using Cons.prems by simp
  moreover have "\<bar>sum_list (map f rs) - sum_list (map g rs)\<bar> \<le> sum_list (map h rs)"
    using Cons by simp
  ultimately show ?case by simp
qed

lemma sum_list_scaled:
  fixes rs :: "rat list"
  shows "sum_list (map (\<lambda>r. r / a) rs) = sum_list rs / a"
  by (induction rs) (simp_all add: add_divide_distrib)

lemma sum_list_scaled_err:
  fixes rs :: "rat list"
  shows "sum_list (map (\<lambda>r. r / a / 2 ^ 24 + 1 / 2 ^ 150) rs) =
         sum_list rs / a / 2 ^ 24 + of_nat (length rs) / 2 ^ 150"
  by (induction rs) (simp_all add: add_divide_distrib)

lemma normalised_weights:
  assumes "\<forall>r\<in>set rs. 0 \<le> r \<and> r \<le> 1" "length rs \<le> 2 ^ 20" "1 \<le> sum_list rs"
  shows "0 < fsum32 rs"
    and "\<forall>r\<in>set rs. f_div (Fin r) (Fin (fsum32 rs)) = Fin (fl32 (r / fsum32 rs)) \<and>
                     0 \<le> fl32 (r / fsum32 rs)"
    and "\<bar>sum_list (map (\<lambda>r. fl32 (r / fsum32 rs)) rs) - 1\<bar> \<le> (4 * of_nat (length rs) + 3) / 2 ^ 24"
proof -
  define a where "a = fsum32 rs"
  define S where "S = sum_list rs"
  define n :: rat where "n = of_nat (length rs)"
  have S1: "1 \<le> S" using assms(3) by (simp add: S_def)
  have "(of_nat (length rs) :: rat) \<le> of_nat (2 ^ 20)" using assms(2) by (simp only: of_nat_le_iff)
  then have n: "0 \<le> n" "n \<le> 2 ^ 20" by (simp_all add: n_def)
  have cl: "\<bar>a - S\<bar> \<le> S / 8 + 1 / 2 ^ 129" using fsum32_close [OF assms(1,2)] by (simp add: a_def S_def)
  have "(1::rat) / 2 ^ 129 \<le> 1 / 8" by simp
  then have "1 / 2 ^ 129 \<le> S / 8" using S1 by linarith
  then have alo: "S / 2 \<le> a" using cl by linarith
  then have a12: "1 / 2 \<le> a" using S1 by linarith
  then have apos: "0 < a" by linarith
  show "0 < fsum32 rs" using apos by (simp add: a_def)
  have X: "S / a \<le> 2" using alo apos by (simp add: field_simps)
  have Y: "1 / a \<le> 2" using a12 apos by (simp add: field_simps)
  have X0: "0 \<le> S / a" using S1 apos by simp
  have w: "f_div (Fin r) (Fin a) = Fin (fl32 (r / a)) \<and> 0 \<le> fl32 (r / a) \<and>
           \<bar>fl32 (r / a) - r / a\<bar> \<le> r / a / 2 ^ 24 + 1 / 2 ^ 150" if "r \<in> set rs" for r
  proof -
    have r: "0 \<le> r" "r \<le> 1" using assms(1) that by simp_all
    have q0: "0 \<le> r / a" using r(1) apos by simp
    have "r / a \<le> 1 / a" using r(2) apos by (intro divide_right_mono) auto
    then have "r / a \<le> 2" using Y by linarith
    then have "\<bar>r / a\<bar> \<le> 2 ^ 100" using q0 by simp
    then have "f_round (r / a) = Fin (fl32 (r / a))" by (rule f_round_small)
    then have "f_div (Fin r) (Fin a) = Fin (fl32 (r / a))" using apos by simp
    moreover have "0 \<le> fl32 (r / a)" unfolding fl32_def using q0 by (rule fl_nonneg)
    moreover have "\<bar>fl32 (r / a) - r / a\<bar> \<le> r / a / 2 ^ 24 + 1 / 2 ^ 150"
      using fl32_err [of "r / a"] q0 by simp
    ultimately show ?thesis by blast
  qed
  show "\<forall>r\<in>set rs. f_div (Fin r) (Fin (fsum32 rs)) = Fin (fl32 (r / fsum32 rs)) \<and>
                     0 \<le> fl32 (r / fsum32 rs)"
    using w by (simp add: a_def)
  have "\<forall>r\<in>set rs. \<bar>fl32 (r / a) - r / a\<bar> \<le> r / a / 2 ^ 24 + 1 / 2 ^ 150" using w by blast
  from sum_list_err [of rs "\<lambda>r. fl32 (r / a)" "\<lambda>r. r / a" "\<lambda>r. r / a / 2 ^ 24 + 1 / 2 ^ 150", OF this]
  have d1: "\<bar>sum_list (map (\<lambda>r. fl32 (r / a)) rs) - S / a\<bar> \<le> S / a / 2 ^ 24 + n / 2 ^ 150"
    by (simp only: sum_list_scaled sum_list_scaled_err S_def n_def)
  have "S / a / 2 ^ 24 \<le> 2 / 2 ^ 24" using X by (intro divide_right_mono) auto
  then have d1': "\<bar>sum_list (map (\<lambda>r. fl32 (r / a)) rs) - S / a\<bar> \<le> 2 / 2 ^ 24 + n / 2 ^ 150"
    using d1 by linarith
  have E: "\<bar>a - S\<bar> \<le> 2 * n * (S / 2 ^ 24 + 1 / 2 ^ 150)"
    using fsum32_err [OF assms(1,2)] by (simp add: a_def S_def n_def)
  have "S / a - 1 = (S - a) / a" using apos by (simp add: field_simps)
  then have "\<bar>S / a - 1\<bar> = \<bar>a - S\<bar> / a" using apos by (simp add: abs_minus_commute)
  also have "\<dots> \<le> 2 * n * (S / 2 ^ 24 + 1 / 2 ^ 150) / a" using E apos by (intro divide_right_mono) auto
  also have "\<dots> = 2 * n * ((S / a) / 2 ^ 24 + (1 / a) / 2 ^ 150)"
    using apos by (simp add: field_simps)
  also have "\<dots> \<le> 2 * n * (2 / 2 ^ 24 + 2 / 2 ^ 150)"
    using X Y n(1) by (intro mult_left_mono add_mono divide_right_mono) auto
  finally have d2: "\<bar>S / a - 1\<bar> \<le> 2 * n * (2 / 2 ^ 24 + 2 / 2 ^ 150)" .
  have "5 * n / 2 ^ 150 \<le> 5 * 2 ^ 20 / 2 ^ 150" using n(2) by (intro divide_right_mono mult_left_mono) auto
  also have "\<dots> \<le> 1 / 2 ^ 24" by simp
  finally have t: "5 * n / 2 ^ 150 \<le> 1 / 2 ^ 24" .
  have "\<bar>sum_list (map (\<lambda>r. fl32 (r / a)) rs) - 1\<bar> \<le>
        \<bar>sum_list (map (\<lambda>r. fl32 (r / a)) rs) - S / a\<bar> + \<bar>S / a - 1\<bar>" by simp
  also have "\<dots> \<le> (2 / 2 ^ 24 + n / 2 ^ 150) + 2 * n * (2 / 2 ^ 24 + 2 / 2 ^ 150)"
    using d1' d2 by linarith
  also have "\<dots> = (4 * n + 2) / 2 ^ 24 + 5 * n / 2 ^ 150" by (simp add: algebra_simps add_divide_distrib)
  also have "\<dots> \<le> (4 * n + 2) / 2 ^ 24 + 1 / 2 ^ 24" using t by simp
  also have "\<dots> = (4 * n + 3) / 2 ^ 24" by (simp add: add_divide_distrib)
  finally show "\<bar>sum_list (map (\<lambda>r. fl32 (r / fsum32 rs)) rs) - 1\<bar> \<le> (4 * of_nat (length rs) + 3) / 2 ^ 24"
    by (simp add: a_def n_def)
qed

lemma radius_cast_value:
  assumes "0 < x" "x \<le> 15000"
  shows "f_to_int (f_ceil (f_mul (Fin 3) (f_max f_0001 (Fin x)))) =
           Inr \<lceil>fl32 (3 * max (8589935 / 8589934592) x)\<rceil> \<and>
         1 \<le> \<lceil>fl32 (3 * max (8589935 / 8589934592) x)\<rceil> \<and>
         \<lceil>fl32 (3 * max (8589935 / 8589934592) x)\<rceil> \<le> 45001"
proof -
  define t :: rat where "t = max (8589935 / 8589934592) x"
  obtain c where c: "f_to_int (f_ceil (f_mul (Fin 3) (f_max f_0001 (Fin x)))) = Inr c"
    "1 \<le> c" "c \<le> 45001"
    using radius_cast_small [OF assms] by blast
  have t1: "0 < t" "t \<le> 15000" using assms by (simp_all add: t_def)
  then have "\<bar>3 * t\<bar> \<le> 2 ^ 100" by simp
  then have "f_round (3 * t) = Fin (fl32 (3 * t))" by (rule f_round_small)
  then have "f_mul (Fin 3) (f_max f_0001 (Fin x)) = Fin (fl32 (3 * t))"
    by (simp add: f_max_0001 t_def)
  then have "f_to_int (Fin (of_int \<lceil>fl32 (3 * t)\<rceil>)) = Inr c" using c(1) by simp
  then have "c = \<lceil>fl32 (3 * t)\<rceil>" by (auto simp: Let_def split: if_splits)
  then show ?thesis using c by (simp add: t_def)
qed

lemma makeGaussianKernel_value:
  assumes "0 < x" "f_to_int (f_ceil (f_mul (Fin 3) (f_max f_0001 (Fin x)))) = Inr R"
    and "1 \<le> R" "R \<le> 45001"
    and "inv2s2 = f_div (Fin 1) (f_mul (f_mul (Fin 2) (f_max f_0001 (Fin x))) (f_max f_0001 (Fin x)))"
    and "ws = map (\<lambda>j. tap_value fexp inv2s2 (j * j)) [- R..R]"
    and "acc = foldl f_add (Fin 0) ws"
  shows "makeGaussianKernel fexp (Fin x) =
           Inr \<lparr>k_w = (if f_gt acc (Fin 0) then map (\<lambda>v. f_div v acc) ws else ws), k_r = R\<rparr>"
proof -
  have "R * R \<le> 45001 * 45001" using assms(3,4) by (intro mult_mono) auto
  then have sq: "R * R \<le> 2147483647" by simp
  have R0: "0 \<le> R" using assms(3) by simp
  have f: "foldl (\<lambda>a j. f_add a (tap_value fexp inv2s2 (j * j))) (Fin 0) [- R..R] = acc"
    by (simp add: assms(6,7) foldl_map)
  have g: "f_gt (Fin x) (Fin 0)" using assms(1) by (simp add: f_gt_def)
  have m: "max 0 R = R" using R0 by simp
  have s: "\<not> 2147483647 < 2 * R + 1" using assms(4) by simp
  have loop: "for_loop [- R..R] (kernel_tap fexp inv2s2 R) (replicate (nat (2 * R + 1)) (Fin 0), Fin 0) =
      Inr (ws, acc)"
    using kernel_loop_acc [OF R0 sq, where fexp = fexp and ?inv2s2.0 = inv2s2] f assms(6) by simp
  show ?thesis
    unfolding makeGaussianKernel_def Let_def
    using g s
    by (simp add: assms(2) m assms(5) [symmetric] loop)
qed

lemma kernel_weights:
  assumes "0 < x" "x \<le> 15000"
    and "fexp (Fin 0) = Fin 1"
    and "\<forall>q. q \<le> 0 \<longrightarrow> (\<exists>r. fexp (Fin q) = Fin r \<and> 0 \<le> r \<and> r \<le> 1)"
  shows "\<exists>k qs. makeGaussianKernel fexp (Fin x) = Inr k \<and>
           k_r k = \<lceil>fl32 (3 * max (8589935 / 8589934592) x)\<rceil> \<and>
           k_w k = map Fin qs \<and> (\<forall>q\<in>set qs. 0 \<le> q) \<and>
           \<bar>sum_list qs - 1\<bar> \<le> (8 * of_int (k_r k) + 7) / 2 ^ 24"
proof -
  define t :: rat where "t = max (8589935 / 8589934592) x"
  define R where "R = \<lceil>fl32 (3 * t)\<rceil>"
  define inv2s2 where "inv2s2 = f_div (Fin 1) (f_mul (f_mul (Fin 2) (Fin t)) (Fin t))"
  define tap where "tap = (\<lambda>j. tap_value fexp inv2s2 (j * j))"
  define rs where "rs = map (\<lambda>j. fin_val (tap j)) [- R..R]"
  define a where "a = fsum32 rs"
  define qs where "qs = map (\<lambda>r. fl32 (r / a)) rs"
  have t1: "8589935 / 8589934592 \<le> t" "t \<le> 15000" using assms(1,2) by (simp_all add: t_def)
  have R: "f_to_int (f_ceil (f_mul (Fin 3) (f_max f_0001 (Fin x)))) = Inr R" "1 \<le> R" "R \<le> 45001"
    using radius_cast_value [OF assms(1,2)] by (simp_all add: R_def t_def)
  have s: "f_max f_0001 (Fin x) = Fin t" by (simp add: f_max_0001 t_def)
  have tp: "\<exists>r. tap j = Fin r \<and> 0 \<le> r \<and> r \<le> 1 \<and> (j = 0 \<longrightarrow> r = 1)" if "- R \<le> j" "j \<le> R" for j
  proof -
    have "\<bar>j\<bar> \<le> 45001" using that R(3) by simp
    from tap_argument [OF t1 this]
    obtain q where q: "f_mul (f_neg (f_of_int (j * j))) inv2s2 = Fin q" "q \<le> 0" "j = 0 \<longrightarrow> q = 0"
      unfolding inv2s2_def by blast
    obtain r where r: "fexp (Fin q) = Fin r" "0 \<le> r" "r \<le> 1" using assms(4) q(2) by blast
    have "tap j = Fin r" by (simp add: tap_def tap_value_def q(1) r(1))
    moreover have "j = 0 \<longrightarrow> r = 1" using q(3) r(1) assms(3) by auto
    ultimately show ?thesis using r(2,3) by blast
  qed
  have ws: "map tap [- R..R] = map Fin rs"
    unfolding rs_def map_map
  proof (rule map_cong [OF refl])
    fix j assume "j \<in> set [- R..R]"
    then have "- R \<le> j" "j \<le> R" by simp_all
    from tp [OF this] obtain r where "tap j = Fin r" by blast
    then show "tap j = (Fin \<circ> (\<lambda>j. fin_val (tap j))) j" by (simp add: fin_val_def)
  qed
  have unit: "\<forall>r\<in>set rs. 0 \<le> r \<and> r \<le> 1"
  proof
    fix r assume "r \<in> set rs"
    then obtain j where j: "- R \<le> j" "j \<le> R" "r = fin_val (tap j)" by (auto simp: rs_def)
    from tp [OF j(1,2)] show "0 \<le> r \<and> r \<le> 1" by (auto simp: j(3) fin_val_def)
  qed
  have len: "length rs = nat (2 * R + 1)" using R(2) by (simp add: rs_def)
  have "nat (2 * R + 1) \<le> nat 90003" using R(3) by (intro nat_mono) simp
  then have len20: "length rs \<le> 2 ^ 20" using len by simp
  have "fin_val (tap 0) \<in> set rs" using R(2) by (auto simp: rs_def)
  moreover have "fin_val (tap 0) = 1" using tp [of 0] R(2) by (auto simp: fin_val_def)
  ultimately have "1 \<in> set rs" by simp
  moreover have "\<forall>r\<in>set rs. 0 \<le> r" using unit by blast
  ultimately have S1: "1 \<le> sum_list rs" by (intro member_le_sum_list_rat)
  note nw = normalised_weights [OF unit len20 S1, folded a_def]
  have acc: "foldl f_add (Fin 0) (map tap [- R..R]) = Fin a"
    by (simp add: ws a_def foldl_f_add_fin [OF unit len20])
  have gt: "f_gt (Fin a) (Fin 0)" using nw(1) by (simp add: f_gt_def)
  have "map (\<lambda>v. f_div v (Fin a)) (map Fin rs) = map Fin qs"
    unfolding qs_def map_map using nw(2) by (intro map_cong) auto
  then have kw: "(if f_gt (Fin a) (Fin 0) then map (\<lambda>v. f_div v (Fin a)) (map tap [- R..R])
                  else map tap [- R..R]) = map Fin qs"
    using gt by (simp add: ws)
  have e5: "inv2s2 = f_div (Fin 1) (f_mul (f_mul (Fin 2) (f_max f_0001 (Fin x))) (f_max f_0001 (Fin x)))"
    by (simp only: inv2s2_def s)
  have e6: "map tap [- R..R] = map (\<lambda>j. tap_value fexp inv2s2 (j * j)) [- R..R]"
    by (simp only: tap_def)
  have e7: "Fin a = foldl f_add (Fin 0) (map tap [- R..R])" using acc by simp
  from makeGaussianKernel_value [OF assms(1) R(1,2,3) e5 e6 e7]
  have mk: "makeGaussianKernel fexp (Fin x) = Inr \<lparr>k_w = map Fin qs, k_r = R\<rparr>"
    by (simp only: kw)
  have q0: "\<forall>q\<in>set qs. 0 \<le> q" using nw(2) by (auto simp: qs_def)
  have "(of_nat (length rs) :: rat) = 2 * of_int R + 1" using R(2) by (simp add: len)
  then have "(4 * of_nat (length rs) + 3 :: rat) = 8 * of_int R + 7" by simp
  then have "\<bar>sum_list qs - 1\<bar> \<le> (8 * of_int R + 7) / 2 ^ 24" using nw(3) by (simp add: qs_def)
  then show ?thesis using mk q0 by (auto simp: R_def t_def)
qed

lemma exp_sample_unit:
  "exp_sample (Fin 0) = Fin 1 \<and>
   (\<forall>q. q \<le> 0 \<longrightarrow> (\<exists>r. exp_sample (Fin q) = Fin r \<and> 0 \<le> r \<and> r \<le> 1))"
proof (intro conjI allI impI)
  have "fl32 1 = 1" unfolding fl32_def by code_simp
  moreover have "f_round 1 = Fin (fl32 1)" by (rule f_round_small) simp
  ultimately show "exp_sample (Fin 0) = Fin 1" by (simp add: exp_sample_def)
next
  fix q :: rat assume q: "q \<le> 0"
  define z where "z = 1 / (1 - q + q * q / 2)"
  have "0 \<le> q * q" by simp
  then have d: "1 \<le> 1 - q + q * q / 2" using q by linarith
  then have z: "0 \<le> z" "z \<le> 1" by (simp_all add: z_def)
  then have "\<bar>z\<bar> \<le> 2 ^ 100" by simp
  then have "f_round z = Fin (fl32 z)" by (rule f_round_small)
  then have "exp_sample (Fin q) = Fin (fl32 z)" by (simp add: exp_sample_def z_def)
  moreover have "0 \<le> fl32 z" unfolding fl32_def using z(1) by (rule fl_nonneg)
  moreover have "fl32 z \<le> 1" using z by (rule fl32_le_one)
  ultimately show "\<exists>r. exp_sample (Fin q) = Fin r \<and> 0 \<le> r \<and> r \<le> 1" by blast
qed

lemma radius_rounds_down:
  "\<lceil>fl32 (3 * max (8589935 / 8589934592) (11184811 / 8388608))\<rceil> = 4 \<and>
   \<lceil>3 * max (1 / 1000) (11184811 / 8388608 :: rat)\<rceil> = 5"
  unfolding fl32_def by code_simp

section \<open>Claims about the resampler\<close>




text \<open>
  Claim C3: for source and target sizes of at least 2 (within the range of \<^verbatim>\<open>int\<close>),
  output index 0 maps to source index 0 and the last output index maps to the last
  source index; hence the first and last elements of a resampled sequence are the first
  and last elements of the source, and in an image the first and last output row and
  column copy the first and last source row and column.
\<close>

theorem resample_preserves_endpoints:
  "(2 \<le> n \<and> n \<le> 2147483647 \<and> 2 \<le> m \<and> m \<le> 2147483647 \<longrightarrow>
      map_index_round 0 n m = 0 \<and> map_index_round (n - 1) n m = m - 1) \<and>
   (2 \<le> n \<and> n \<le> 2147483647 \<and> 2 \<le> length colors \<and> length colors \<le> 2147483647 \<longrightarrow>
      (\<exists>out. downsample_colors colors n = Inr out \<and> out \<noteq> [] \<and>
         hd out = hd colors \<and> last out = last colors)) \<and>
   (2 \<le> w \<and> w \<le> 2147483647 \<and> 2 \<le> h \<and> h \<le> 2147483647 \<and>
    2 \<le> width src \<and> width src \<le> 2147483647 \<and> 2 \<le> height src \<and> height src \<le> 2147483647 \<and>
    (channels src = 1 \<or> channels src = 3) \<longrightarrow>
      (\<exists>out sy sx. downsample_image z src w h = Inr out \<and>
         sy 0 = 0 \<and> sy (h - 1) = height src - 1 \<and> sx 0 = 0 \<and> sx (w - 1) = width src - 1 \<and>
         (\<forall>y x c. 0 \<le> y \<and> y < h \<and> 0 \<le> x \<and> x < w \<and> 0 \<le> c \<and> c < channels src \<longrightarrow>
            pix out (y, x, c) = pix src (sy y, sx x, c))))"
proof (intro conjI impI)
  assume a: "2 \<le> n \<and> n \<le> 2147483647 \<and> 2 \<le> m \<and> m \<le> 2147483647"
  show "map_index_round 0 n m = 0" using a by (simp add: map_index_round_first clampi_def)
  show "map_index_round (n - 1) n m = m - 1" using a by (intro map_index_round_last) auto
next
  assume a: "2 \<le> n \<and> n \<le> 2147483647 \<and> 2 \<le> length colors \<and> length colors \<le> 2147483647"
  define m where "m = int (length colors)"
  have ne: "colors \<noteq> []" using a by auto
  show "\<exists>out. downsample_colors colors n = Inr out \<and> out \<noteq> [] \<and>
         hd out = hd colors \<and> last out = last colors"
  proof (cases "m \<le> n")
    case True
    then have "downsample_colors colors n = Inr colors"
      using a ne by (simp add: downsample_colors_def m_def)
    then show ?thesis using ne by simp
  next
    case False
    then have nm: "n < int (length colors)" by (simp add: m_def)
    obtain out where out: "downsample_colors colors n = Inr out" "int (length out) = n"
      "\<forall>i. 0 \<le> i \<and> i < n \<longrightarrow> out ! nat i = colors ! nat (map_index_round i n m)"
      using downsample_colors_general [of n colors] a nm unfolding m_def by blast
    have len: "length out = nat n" using out(2) by linarith
    have one: "out \<noteq> []" using len a by auto
    have "out ! nat 0 = colors ! nat (map_index_round 0 n m)"
      using out(3) [rule_format, of 0] a by simp
    then have h: "hd out = hd colors"
      using one ne by (simp add: map_index_round_first clampi_def hd_conv_nth)
    have "out ! nat (n - 1) = colors ! nat (map_index_round (n - 1) n m)"
      using out(3) [rule_format, of "n - 1"] a by simp
    moreover have "map_index_round (n - 1) n m = m - 1"
      using a by (intro map_index_round_last) (auto simp: m_def)
    moreover have "nat (n - 1) = length out - 1" using len by simp
    moreover have "nat (m - 1) = length colors - 1" by (simp add: m_def)
    ultimately have "last out = last colors" using one ne by (simp add: last_conv_nth)
    with h one out(1) show ?thesis by simp
  qed
next
  assume a: "2 \<le> w \<and> w \<le> 2147483647 \<and> 2 \<le> h \<and> h \<le> 2147483647 \<and>
    2 \<le> width src \<and> width src \<le> 2147483647 \<and> 2 \<le> height src \<and> height src \<le> 2147483647 \<and>
    (channels src = 1 \<or> channels src = 3)"
  obtain out where out: "downsample_image z src w h = Inr out"
    "\<forall>y x c. 0 \<le> y \<and> y < h \<and> 0 \<le> x \<and> x < w \<and> 0 \<le> c \<and> c < channels src \<longrightarrow>
        pix out (y, x, c) = pix src (src_index h (height src) y, src_index w (width src) x, c)"
    using downsample_image_pixels [of w h src z] a by auto
  have "src_index h (height src) 0 = 0" "src_index h (height src) (h - 1) = height src - 1"
    "src_index w (width src) 0 = 0" "src_index w (width src) (w - 1) = width src - 1"
    using a by (simp_all add: src_index_first src_index_last)
  with out show "\<exists>out sy sx. downsample_image z src w h = Inr out \<and>
         sy 0 = 0 \<and> sy (h - 1) = height src - 1 \<and> sx 0 = 0 \<and> sx (w - 1) = width src - 1 \<and>
         (\<forall>y x c. 0 \<le> y \<and> y < h \<and> 0 \<le> x \<and> x < w \<and> 0 \<le> c \<and> c < channels src \<longrightarrow>
            pix out (y, x, c) = pix src (sy y, sx x, c))"
    by blast
qed

theorem resample_preserves_endpoints_witness:
  "(map_index_round 0 4 10 = 0 \<and> map_index_round (4 - 1) 4 10 = 10 - 1) \<and>
   (\<exists>out. downsample_colors [10, 11, 12, 13, 14, 15, 16, 17, 18, 19 :: nat] 4 = Inr out \<and>
      out \<noteq> [] \<and> hd out = 10 \<and> last out = 19) \<and>
   (\<exists>out sy sx. downsample_image 0 gray5 3 3 = Inr out \<and>
      sy 0 = 0 \<and> sy (3 - 1) = 5 - 1 \<and> sx 0 = 0 \<and> sx (3 - 1) = 5 - 1 \<and>
      (\<forall>y x c. 0 \<le> y \<and> y < 3 \<and> 0 \<le> x \<and> x < 3 \<and> 0 \<le> c \<and> c < 1 \<longrightarrow>
         pix out (y, x, c) = pix gray5 (sy y, sx x, c)))"
  using resample_preserves_endpoints
    [of 4 10 "[10, 11, 12, 13, 14, 15, 16, 17, 18, 19 :: nat]" 3 3 gray5 0]
  by (simp add: gray5_def)



text \<open>
  Claim C6: sequence resampling returns the empty sequence for every target length
  \<open>n \<le> 0\<close> and for every empty source, and returns the source unchanged for every
  target length at least the source length; none of these is an error.
\<close>

theorem sequence_degenerate_targets:
  "(n \<le> 0 \<longrightarrow> downsample_colors colors n = Inr []) \<and>
   (colors = [] \<longrightarrow> downsample_colors colors n = Inr []) \<and>
   (int (length colors) \<le> n \<longrightarrow> downsample_colors colors n = Inr colors)"
proof (intro conjI impI)
  show "downsample_colors colors n = Inr []" if "n \<le> 0"
    using that by (simp add: downsample_colors_def)
  show "downsample_colors colors n = Inr []" if "colors = []"
    using that by (simp add: downsample_colors_def)
  show "downsample_colors colors n = Inr colors" if "int (length colors) \<le> n"
  proof (cases "colors = []")
    case True
    then show ?thesis by (simp add: downsample_colors_def)
  next
    case False
    then have "0 < int (length colors)" by simp
    then have "0 < n" using that by linarith
    then show ?thesis using that False by (simp add: downsample_colors_def)
  qed
qed

theorem sequence_degenerate_targets_witness:
  "downsample_colors [7, 8, 9 :: nat] (- 2) = Inr [] \<and>
   downsample_colors ([] :: nat list) 4 = Inr [] \<and>
   downsample_colors [7, 8, 9 :: nat] 5 = Inr [7, 8, 9]"
  using sequence_degenerate_targets [of "- 2" "[7, 8, 9 :: nat]"]
    sequence_degenerate_targets [of 4 "[] :: nat list"]
    sequence_degenerate_targets [of 5 "[7, 8, 9 :: nat]"]
  by simp

section \<open>Claims about the blur\<close>



text \<open>
  Claim C7: for every image and every colour sequence, blur with a strength less than
  or equal to zero returns its input unchanged.
\<close>

theorem blur_identity_for_nonpositive_strength:
  "f_le strength (Fin 0) \<longrightarrow>
     blur_image cv fexp z img strength = Inr img \<and>
     blur_colors cv fexp colors strength = Inr colors"
  using f_le_zero_not_gt [of strength] by (auto simp: blur_image_def blur_colors_def)

theorem blur_identity_for_nonpositive_strength_witness:
  "blur_image (uint8_ops 0) exp_sample 0 edge4 (Fin (- 2)) = Inr edge4 \<and>
   blur_colors (uint8_ops 0) exp_sample impulse5 (Fin 0) = Inr impulse5"
  using blur_identity_for_nonpositive_strength [of "Fin (- 2)" "uint8_ops 0" exp_sample 0 edge4 impulse5]
    blur_identity_for_nonpositive_strength [of "Fin 0" "uint8_ops 0" exp_sample 0 edge4 impulse5]
  by simp

text \<open>
  Claim C4, as stated, at a concrete input: an image with 2 channels blurred with
  strength 0 is returned unchanged; no assertion is reached.
\<close>

theorem blur_skips_assertions_at_zero_strength:
  "blur_image (uint8_ops 0) exp_sample 0 two_channel (Fin 0) = Inr two_channel \<and>
   channels two_channel = 2"
  by (simp add: blur_image_def f_gt_def two_channel_def)

text \<open>
  Claim C4 (amended): for every strength greater than zero, an image whose width or
  height is not positive aborts with tag 981234001, and an image with positive extents
  whose channel count is neither 1 nor 3 aborts with tag 981234002.
\<close>

theorem blur_image_assertions:
  "f_gt strength (Fin 0) \<longrightarrow>
     (\<not> (0 < width img \<and> 0 < height img) \<longrightarrow>
        blur_image cv fexp z img strength = Inl (Rassert 981234001)) \<and>
     (0 < width img \<and> 0 < height img \<and> \<not> (channels img = 1 \<or> channels img = 3) \<longrightarrow>
        blur_image cv fexp z img strength = Inl (Rassert 981234002))"
  by (auto simp: blur_image_def Let_def)

theorem blur_image_assertions_witness:
  "blur_image (uint8_ops 0) exp_sample 0 (two_channel\<lparr>width := 0\<rparr>) (Fin 1) = Inl (Rassert 981234001) \<and>
   blur_image (uint8_ops 0) exp_sample 0 two_channel (Fin 1) = Inl (Rassert 981234002)"
  using blur_image_assertions [of "Fin 1" "two_channel\<lparr>width := 0\<rparr>" "uint8_ops 0" exp_sample 0]
    blur_image_assertions [of "Fin 1" two_channel "uint8_ops 0" exp_sample 0]
  by (simp add: two_channel_def f_gt_def)

text \<open>
  Claim C8, as stated, at a concrete input: for strength \<open>11184811 / 2^23\<close> (a binary32
  value just above 4/3) the kernel has radius 4, because the product \<^verbatim>\<open>3.0f * s\<close>
  rounds to 4 in binary32, whereas \<open>ceil(3 * max(0.001, sigma))\<close> is 5.
\<close>

theorem kernel_radius_rounds_in_binary32:
  "map_sum id k_r (makeGaussianKernel exp_sample (Fin (11184811 / 8388608))) = Inr 4 \<and>
   \<lceil>3 * max (1 / 1000) (11184811 / 8388608 :: rat)\<rceil> = 5"
proof -
  have "(0::rat) < 11184811 / 8388608" "(11184811 / 8388608 :: rat) \<le> 15000" by simp_all
  from kernel_weights [OF this, of exp_sample] exp_sample_unit
  obtain k where "makeGaussianKernel exp_sample (Fin (11184811 / 8388608)) = Inr k"
    "k_r k = \<lceil>fl32 (3 * max (8589935 / 8589934592) (11184811 / 8388608))\<rceil>"
    by blast
  then show ?thesis using radius_rounds_down by simp
qed

text \<open>
  Claim C8 (amended): every kernel returned for a strength greater than zero has
  \<open>2 R + 1\<close> weights, symmetric about the centre tap, where \<open>R\<close> is its radius. For
  every strength \<open>x\<close> in \<open>(0, 15000]\<close>, and every \<^verbatim>\<open>expf\<close> that returns 1 at 0 and a
  finite value in \<open>[0, 1]\<close> at every finite argument less than or equal to zero, a
  kernel is returned; its radius is the ceiling of the binary32 product of 3 and
  \<open>max(0.001f, x)\<close> and is at least 1; its weights are finite and non-negative; and
  their exact sum differs from 1 by at most \<open>(8 R + 7) / 2^24\<close>.
\<close>

theorem gaussian_kernel_shape:
  "(f_gt strength (Fin 0) \<and> makeGaussianKernel fexp strength = Inr k \<longrightarrow>
      length (k_w k) = nat (2 * k_r k + 1) \<and>
      (\<forall>j. - k_r k \<le> j \<and> j \<le> k_r k \<longrightarrow> k_w k ! nat (j + k_r k) = k_w k ! nat (- j + k_r k))) \<and>
   (0 < x \<and> x \<le> 15000 \<and> fexp (Fin 0) = Fin 1 \<and>
    (\<forall>q. q \<le> 0 \<longrightarrow> (\<exists>r. fexp (Fin q) = Fin r \<and> 0 \<le> r \<and> r \<le> 1)) \<longrightarrow>
      (\<exists>k qs. makeGaussianKernel fexp (Fin x) = Inr k \<and>
         k_r k = \<lceil>fl32 (3 * max (fin_val f_0001) x)\<rceil> \<and> 1 \<le> k_r k \<and>
         length (k_w k) = nat (2 * k_r k + 1) \<and>
         (\<forall>j. - k_r k \<le> j \<and> j \<le> k_r k \<longrightarrow> k_w k ! nat (j + k_r k) = k_w k ! nat (- j + k_r k)) \<and>
         k_w k = map Fin qs \<and> (\<forall>q\<in>set qs. 0 \<le> q) \<and>
         \<bar>sum_list qs - 1\<bar> \<le> (8 * of_int (k_r k) + 7) / 2 ^ 24))"
  unfolding f_0001_value fin_val_def float32.case
proof (intro conjI impI)
  assume a: "f_gt strength (Fin 0) \<and> makeGaussianKernel fexp strength = Inr k"
  then show "length (k_w k) = nat (2 * k_r k + 1)"
    using makeGaussianKernel_positive [of strength fexp] by auto
  show "\<forall>j. - k_r k \<le> j \<and> j \<le> k_r k \<longrightarrow> k_w k ! nat (j + k_r k) = k_w k ! nat (- j + k_r k)"
    using a makeGaussianKernel_positive [of strength fexp] by auto
next
  assume a: "0 < x \<and> x \<le> 15000 \<and> fexp (Fin 0) = Fin 1 \<and>
    (\<forall>q. q \<le> 0 \<longrightarrow> (\<exists>r. fexp (Fin q) = Fin r \<and> 0 \<le> r \<and> r \<le> 1))"
  then have x: "0 < x" "x \<le> 15000" and e1: "fexp (Fin 0) = Fin 1"
    and e2: "\<forall>q. q \<le> 0 \<longrightarrow> (\<exists>r. fexp (Fin q) = Fin r \<and> 0 \<le> r \<and> r \<le> 1)"
    by blast+
  from kernel_weights [OF x e1 e2]
  obtain k qs where k: "makeGaussianKernel fexp (Fin x) = Inr k"
    "k_r k = \<lceil>fl32 (3 * max (8589935 / 8589934592) x)\<rceil>"
    "k_w k = map Fin qs" "\<forall>q\<in>set qs. 0 \<le> q"
    "\<bar>sum_list qs - 1\<bar> \<le> (8 * of_int (k_r k) + 7) / 2 ^ 24"
    by blast
  have g: "f_gt (Fin x) (Fin 0)" using x(1) by (simp add: f_gt_def)
  have l: "length (k_w k) = nat (2 * k_r k + 1)"
    using makeGaussianKernel_positive [OF g, of fexp] k(1) by auto
  have sy: "\<forall>j. - k_r k \<le> j \<and> j \<le> k_r k \<longrightarrow> k_w k ! nat (j + k_r k) = k_w k ! nat (- j + k_r k)"
    using makeGaussianKernel_positive [OF g, of fexp] k(1) by auto
  have r1: "1 \<le> k_r k" using radius_cast_value [OF x] k(2) by simp
  show "\<exists>k qs. makeGaussianKernel fexp (Fin x) = Inr k \<and>
         k_r k = \<lceil>fl32 (3 * max (8589935 / 8589934592) x)\<rceil> \<and> 1 \<le> k_r k \<and>
         length (k_w k) = nat (2 * k_r k + 1) \<and>
         (\<forall>j. - k_r k \<le> j \<and> j \<le> k_r k \<longrightarrow> k_w k ! nat (j + k_r k) = k_w k ! nat (- j + k_r k)) \<and>
         k_w k = map Fin qs \<and> (\<forall>q\<in>set qs. 0 \<le> q) \<and>
         \<bar>sum_list qs - 1\<bar> \<le> (8 * of_int (k_r k) + 7) / 2 ^ 24"
    using k l sy r1 by blast
qed

theorem gaussian_kernel_shape_witness:
  "length (k_w kernel_quarter) = nat (2 * k_r kernel_quarter + 1) \<and>
   k_w kernel_quarter ! nat (1 + k_r kernel_quarter) = k_w kernel_quarter ! nat (- 1 + k_r kernel_quarter) \<and>
   (\<exists>k qs. makeGaussianKernel exp_sample (Fin (1 / 4)) = Inr k \<and>
         k_r k = \<lceil>fl32 (3 * max (fin_val f_0001) (1 / 4))\<rceil> \<and> 1 \<le> k_r k \<and>
         length (k_w k) = nat (2 * k_r k + 1) \<and>
         (\<forall>j. - k_r k \<le> j \<and> j \<le> k_r k \<longrightarrow> k_w k ! nat (j + k_r k) = k_w k ! nat (- j + k_r k)) \<and>
         k_w k = map Fin qs \<and> (\<forall>q\<in>set qs. 0 \<le> q) \<and>
         \<bar>sum_list qs - 1\<bar> \<le> (8 * of_int (k_r k) + 7) / 2 ^ 24)"
proof -
  have g: "f_gt (Fin (1 / 4)) (Fin 0)" by (simp add: f_gt_def)
  have x: "(0::rat) < 1 / 4" "(1 / 4 :: rat) \<le> 15000" by simp_all
  have r: "- k_r kernel_quarter \<le> 1 \<and> 1 \<le> k_r kernel_quarter" by (simp add: kernel_quarter_def)
  show ?thesis
    using gaussian_kernel_shape [of "Fin (1 / 4)" exp_sample kernel_quarter "1 / 4"]
      kernel_quarter_eval exp_sample_unit g x r
    by blast
qed

text \<open>
  Claim C9, as stated, at a concrete input: strength \<open>10^9\<close> is greater than zero, but
  the conversion of \<open>ceil(3 * 10^9)\<close> to \<^verbatim>\<open>int\<close> is out of range, so the kernel
  construction has undefined behaviour and yields no radius of at least 1.
\<close>

theorem kernel_radius_overflow:
  "f_gt (Fin 1000000000) (Fin 0) \<and>
   makeGaussianKernel exp_sample (Fin 1000000000) = Inl UndefinedBehaviour"
  by code_simp

text \<open>
  Claim C9 (amended): whenever \<open>makeGaussianKernel\<close> returns a kernel for a strength
  greater than zero, its radius is at least 1, hence not 0, and the zero-radius branch
  of either blur overload is not taken; and it does return a kernel for every strength
  in \<open>(0, 15000]\<close>.
\<close>

theorem positive_strength_radius:
  "(f_gt strength (Fin 0) \<and> makeGaussianKernel fexp strength = Inr k \<longrightarrow> 1 \<le> k_r k \<and> k_r k \<noteq> 0) \<and>
   (0 < x \<and> x \<le> 15000 \<longrightarrow>
      (\<exists>k. makeGaussianKernel fexp (Fin x) = Inr k \<and> 1 \<le> k_r k \<and> k_r k \<noteq> 0))"
proof (intro conjI impI)
  assume a: "f_gt strength (Fin 0) \<and> makeGaussianKernel fexp strength = Inr k"
  then obtain c where c: "f_to_int (f_ceil (f_mul (Fin 3) (f_max f_0001 strength))) = Inr c"
    "k_r k = max 0 c"
    using makeGaussianKernel_positive [of strength fexp] by auto
  have "1 \<le> c"
  proof (cases strength)
    case (Fin x)
    then have "0 < x" using a by (simp add: f_gt_def)
    then show ?thesis using c(1) Fin by (intro radius_cast_positive [of x]) auto
  next
    case PInf
    then show ?thesis using c(1) by (simp add: f_0001_value f_max_def)
  next
    case NInf
    then show ?thesis using a by (simp add: f_gt_def)
  next
    case NaN
    then show ?thesis using a by (simp add: f_gt_def)
  qed
  then show "1 \<le> k_r k" "k_r k \<noteq> 0" using c(2) by auto
next
  assume a: "0 < x \<and> x \<le> 15000"
  then obtain c where c: "f_to_int (f_ceil (f_mul (Fin 3) (f_max f_0001 (Fin x)))) = Inr c"
    "1 \<le> c" "c \<le> 45001"
    using radius_cast_small [of x] by blast
  have "max 0 c * max 0 c \<le> 45001 * 45001" using c(2,3) by (intro mult_mono) auto
  then have small: "\<not> 2147483647 < max 0 c * max 0 c" by simp
  have g: "f_gt (Fin x) (Fin 0)" using a by (simp add: f_gt_def)
  from makeGaussianKernel_positive [OF g, of fexp] c(1) small
  obtain k where "makeGaussianKernel fexp (Fin x) = Inr k" "k_r k = max 0 c" by auto
  then show "\<exists>k. makeGaussianKernel fexp (Fin x) = Inr k \<and> 1 \<le> k_r k \<and> k_r k \<noteq> 0"
    using c(2) by auto
qed

theorem positive_strength_radius_witness:
  "(1 \<le> k_r kernel_quarter \<and> k_r kernel_quarter \<noteq> 0) \<and>
   (\<exists>k. makeGaussianKernel exp_sample (Fin (1 / 4)) = Inr k \<and> 1 \<le> k_r k \<and> k_r k \<noteq> 0)"
  using positive_strength_radius [of "Fin (1 / 4)" exp_sample kernel_quarter "1 / 4"]
    kernel_quarter_eval
  by (simp add: f_gt_def)

section \<open>Claims about both operations\<close>




end
